theory Spec2Isabelle
  imports Main
begin

section \<open>The protocol buffers tag parser (protobuf.c)\<close>

subsection \<open>Data definitions\<close>

datatype protobufKind =
  PK_PACKAGE | PK_MESSAGE | PK_FIELD | PK_ENUMERATOR | PK_ENUM | PK_SERVICE | PK_RPC

text \<open>One row of the kind table: \<^verbatim>\<open>{ enabled, letter, name, description }\<close>.\<close>

record kindOption =
  enabled :: bool
  letter :: char
  name :: string
  description :: string

text \<open>The table \<^verbatim>\<open>ProtobufKinds\<close> as the source initialises it. The host may flip
  the \<open>enabled\<close> flags before a run, so the parser below takes the table as a parameter.\<close>

fun ProtobufKinds :: "protobufKind \<Rightarrow> kindOption" where
  "ProtobufKinds PK_PACKAGE =
     \<lparr>enabled = True, letter = CHR ''p'', name = ''package'', description = ''packages''\<rparr>"
| "ProtobufKinds PK_MESSAGE =
     \<lparr>enabled = True, letter = CHR ''m'', name = ''message'', description = ''messages''\<rparr>"
| "ProtobufKinds PK_FIELD =
     \<lparr>enabled = True, letter = CHR ''f'', name = ''field'', description = ''fields''\<rparr>"
| "ProtobufKinds PK_ENUMERATOR =
     \<lparr>enabled = True, letter = CHR ''e'', name = ''enumerator'', description = ''enum constants''\<rparr>"
| "ProtobufKinds PK_ENUM =
     \<lparr>enabled = True, letter = CHR ''g'', name = ''enum'', description = ''enum types''\<rparr>"
| "ProtobufKinds PK_SERVICE =
     \<lparr>enabled = True, letter = CHR ''s'', name = ''service'', description = ''services''\<rparr>"
| "ProtobufKinds PK_RPC =
     \<lparr>enabled = False, letter = CHR ''r'', name = ''rpc'', description = ''RPC methods''\<rparr>"

text \<open>The part of \<^verbatim>\<open>tagEntryInfo\<close> that \<^verbatim>\<open>createProtobufTag\<close> fills in: the tag's
  name (\<^verbatim>\<open>tag.name\<close>), \<^verbatim>\<open>tag.kindName\<close> and the kind letter \<^verbatim>\<open>tag.kind\<close>.\<close>

record tagEntryInfo =
  tagName :: string
  kindName :: string
  kind :: char

text \<open>The two calls the tokenizer makes to the character supplier.\<close>

datatype cppCall = Getc | Ungetc

text \<open>The state of one run: the supplier (characters not yet read, the pushed-back
  character, and the log of calls made to it, latest first), the static \<^verbatim>\<open>token\<close> (\<^verbatim>\<open>token.type\<close>,
  \<^verbatim>\<open>token.value\<close>) and the tags handed to \<^verbatim>\<open>makeTagEntry\<close> so far, oldest first.\<close>

record pstate =
  input :: "char list"
  ungetch :: "int option"
  calls :: "cppCall list"
  token_type :: int
  token_value :: string
  tags :: "tagEntryInfo list"

abbreviation ch :: "char \<Rightarrow> int" where
  "ch c \<equiv> of_char c"

definition EOF :: int where
  "EOF = - 1"

definition TOKEN_EOF :: int where
  "TOKEN_EOF = 0"

definition TOKEN_ID :: int where
  "TOKEN_ID = ch CHR ''i''"

subsection \<open>The character supplier\<close>

text \<open>Modelled from the spec: \<^verbatim>\<open>cppGetc\<close> and \<^verbatim>\<open>cppUngetc\<close> (get.c is not part of the
  sources at hand). \<open>getChar\<close> returns the next character, or the end-of-stream marker
  once the stream is exhausted; \<open>ungetChar\<close> pushes one character back for the next
  \<open>getChar\<close>. The stream is what is left after the host has removed comments and
  string bodies; the contract excludes no character, so the stream may hold any
  character, the NUL character included. End of stream is the value \<open>EOF\<close>. Every call
  is logged in \<open>calls\<close>, the latest call first.\<close>

definition cppGetc :: "pstate \<Rightarrow> int \<times> pstate" where
  "cppGetc s =
     (case ungetch s of
        Some c \<Rightarrow> (c, s\<lparr>ungetch := None, calls := Getc # calls s\<rparr>)
      | None \<Rightarrow>
          (case input s of
             [] \<Rightarrow> (EOF, s\<lparr>calls := Getc # calls s\<rparr>)
           | c # cs \<Rightarrow> (ch c, s\<lparr>input := cs, calls := Getc # calls s\<rparr>)))"

definition cppUngetc :: "int \<Rightarrow> pstate \<Rightarrow> pstate" where
  "cppUngetc c s = s\<lparr>ungetch := Some c, calls := Ungetc # calls s\<rparr>"

text \<open>Modelled from the spec: \<^verbatim>\<open>isalnum\<close> of the C library, in the C locale.\<close>

definition isalnum :: "int \<Rightarrow> bool" where
  "isalnum c =
     ((ch CHR ''0'' \<le> c \<and> c \<le> ch CHR ''9'') \<or>
      (ch CHR ''A'' \<le> c \<and> c \<le> ch CHR ''Z'') \<or>
      (ch CHR ''a'' \<le> c \<and> c \<le> ch CHR ''z''))"

text \<open>\<^verbatim>\<open>vStringClear (token.value)\<close> and \<^verbatim>\<open>vStringPut (token.value, c)\<close>.\<close>

definition vStringClear :: "pstate \<Rightarrow> pstate" where
  "vStringClear s = s\<lparr>token_value := []\<rparr>"

definition vStringPut :: "int \<Rightarrow> pstate \<Rightarrow> pstate" where
  "vStringPut c s = s\<lparr>token_value := token_value s @ [char_of c]\<rparr>"

subsection \<open>The tokenizer\<close>

text \<open>What a loop can still consume: the unread characters, and a pushed-back
  character when it is not an end marker.\<close>

definition chars_left :: "pstate \<Rightarrow> nat" where
  "chars_left s =
     length (input s) + (case ungetch s of None \<Rightarrow> 0 | Some c \<Rightarrow> if 0 < c then 1 else 0)"

lemma cppGetc_chars_left_le:
  "cppGetc s = (c, s') \<Longrightarrow> chars_left s' \<le> chars_left s"
  by (cases "ungetch s"; cases "input s") (auto simp: cppGetc_def chars_left_def)

lemma cppGetc_chars_left_less:
  "cppGetc s = (c, s') \<Longrightarrow> 0 < c \<Longrightarrow> chars_left s' < chars_left s"
  by (cases "ungetch s"; cases "input s") (auto simp: cppGetc_def chars_left_def EOF_def)

lemma chars_left_vStringPut [simp]:
  "chars_left (vStringPut c s) = chars_left s"
  by (simp add: vStringPut_def chars_left_def)

text \<open>The inner \<^verbatim>\<open>while\<close> of \<^verbatim>\<open>nextToken\<close>: append \<open>c\<close> and fetch, as long as \<open>c\<close>
  belongs to an identifier. Returns the character that ended the run.\<close>

function identLoop :: "int \<Rightarrow> pstate \<Rightarrow> int \<times> pstate" where
  "identLoop c s =
     (if 0 < c \<and> (isalnum c \<or> c = ch CHR ''_'') then
        (case cppGetc (vStringPut c s) of (c', s') \<Rightarrow> identLoop c' s')
      else (c, s))"
  by pat_completeness auto
termination
proof (relation "measure (\<lambda>(c, s). chars_left s + (if 0 < c then 1 else 0))")
  show "wf (measure (\<lambda>(c, s). chars_left s + (if 0 < c then 1 else 0)))"
    by simp
next
  fix c :: int and s c' s'
  assume c: "0 < c \<and> (isalnum c \<or> c = ch CHR ''_'')"
    and g: "(c', s') = cppGetc (vStringPut c s)"
  have "chars_left s' \<le> chars_left s"
    using cppGetc_chars_left_le [OF g [symmetric]] by simp
  moreover have "0 < c' \<Longrightarrow> chars_left s' < chars_left s"
    using cppGetc_chars_left_less [OF g [symmetric]] by simp
  ultimately show "((c', s'), (c, s)) \<in> measure (\<lambda>(c, s). chars_left s + (if 0 < c then 1 else 0))"
    using c by auto
qed

declare identLoop.simps [simp del]

text \<open>\<^verbatim>\<open>nextToken\<close>: the \<^verbatim>\<open>goto repeat\<close> is the recursive call.\<close>

function nextToken :: "pstate \<Rightarrow> pstate" where
  "nextToken s =
     (case cppGetc s of (c, s1) \<Rightarrow>
        if c \<le> 0 then s1\<lparr>token_type := TOKEN_EOF\<rparr>
        else if c = ch CHR ''{'' \<or> c = ch CHR ''}'' \<or> c = ch CHR '';'' \<or>
                c = ch CHR ''.'' \<or> c = ch CHR ''='' then s1\<lparr>token_type := c\<rparr>
        else if isalnum c \<or> c = ch CHR ''_'' then
          (case identLoop c (vStringClear (s1\<lparr>token_type := TOKEN_ID\<rparr>)) of
             (c', s2) \<Rightarrow> cppUngetc c' s2)
        else nextToken s1)"
  by pat_completeness auto
termination
proof (relation "measure chars_left")
  show "wf (measure chars_left)"
    by simp
next
  fix s c s1
  assume g: "(c, s1) = cppGetc s" and c: "\<not> c \<le> 0"
  show "(s1, s) \<in> measure chars_left"
    using cppGetc_chars_left_less [OF g [symmetric]] c by simp
qed

declare nextToken.simps [simp del]

text \<open>The same count while the tokenizer holds a fetched character \<open>c\<close> in hand.\<close>

definition in_hand :: "int \<Rightarrow> pstate \<Rightarrow> nat" where
  "in_hand c s = chars_left s + (if 0 < c then 1 else 0)"

lemma cppGetc_in_hand:
  "cppGetc s = (c, s') \<Longrightarrow> in_hand c s' \<le> chars_left s"
  using cppGetc_chars_left_le [of s c s'] cppGetc_chars_left_less [of s c s']
  by (auto simp: in_hand_def)

lemma identLoop_stop:
  "\<not> (0 < c \<and> (isalnum c \<or> c = ch CHR ''_'')) \<Longrightarrow> identLoop c s = (c, s)"
  by (subst identLoop.simps) (rule if_not_P)

lemma identLoop_step:
  "0 < c \<and> (isalnum c \<or> c = ch CHR ''_'') \<Longrightarrow> cppGetc (vStringPut c s) = (c1, s1) \<Longrightarrow>
   identLoop c s = identLoop c1 s1"
  by (subst identLoop.simps) (simp del: of_char_Char)

lemma nextToken_eof:
  "cppGetc s = (c, s1) \<Longrightarrow> c \<le> 0 \<Longrightarrow> nextToken s = s1\<lparr>token_type := TOKEN_EOF\<rparr>"
  by (subst nextToken.simps) simp

lemma nextToken_punct:
  "cppGetc s = (c, s1) \<Longrightarrow> 0 < c \<Longrightarrow>
   c = ch CHR ''{'' \<or> c = ch CHR ''}'' \<or> c = ch CHR '';'' \<or> c = ch CHR ''.'' \<or> c = ch CHR ''='' \<Longrightarrow>
   nextToken s = s1\<lparr>token_type := c\<rparr>"
  by (subst nextToken.simps) auto

lemma nextToken_ident:
  "cppGetc s = (c, s1) \<Longrightarrow> 0 < c \<Longrightarrow>
   \<not> (c = ch CHR ''{'' \<or> c = ch CHR ''}'' \<or> c = ch CHR '';'' \<or> c = ch CHR ''.'' \<or> c = ch CHR ''='') \<Longrightarrow>
   isalnum c \<or> c = ch CHR ''_'' \<Longrightarrow>
   identLoop c (vStringClear (s1\<lparr>token_type := TOKEN_ID\<rparr>)) = (c', s2) \<Longrightarrow>
   nextToken s = cppUngetc c' s2"
  by (subst nextToken.simps) auto

lemma nextToken_other:
  "cppGetc s = (c, s1) \<Longrightarrow> 0 < c \<Longrightarrow>
   \<not> (c = ch CHR ''{'' \<or> c = ch CHR ''}'' \<or> c = ch CHR '';'' \<or> c = ch CHR ''.'' \<or> c = ch CHR ''='') \<Longrightarrow>
   \<not> (isalnum c \<or> c = ch CHR ''_'') \<Longrightarrow>
   nextToken s = nextToken s1"
  by (subst nextToken.simps) auto

lemma identLoop_in_hand:
  "identLoop c s = (c', s') \<Longrightarrow> in_hand c' s' \<le> in_hand c s"
proof (induction c s rule: identLoop.induct)
  case (1 c s)
  show ?case
  proof (cases "0 < c \<and> (isalnum c \<or> c = ch CHR ''_'')")
    case True
    obtain c1 s1 where g: "cppGetc (vStringPut c s) = (c1, s1)"
      by (cases "cppGetc (vStringPut c s)")
    have "identLoop c1 s1 = (c', s')"
      using "1.prems" identLoop_step [OF True g] by simp
    then have "in_hand c' s' \<le> in_hand c1 s1"
      using "1.IH" [OF True g [symmetric]] by simp
    also have "in_hand c1 s1 \<le> chars_left s"
      using cppGetc_in_hand [OF g] by simp
    finally show ?thesis
      by (simp add: in_hand_def)
  next
    case False
    then show ?thesis
      using "1.prems" identLoop_stop [OF False, of s] by simp
  qed
qed

lemma identLoop_in_hand_less:
  assumes "identLoop c s = (c', s')" and "0 < c \<and> (isalnum c \<or> c = ch CHR ''_'')"
  shows "in_hand c' s' \<le> chars_left s"
proof -
  obtain c1 s1 where g: "cppGetc (vStringPut c s) = (c1, s1)"
    by (cases "cppGetc (vStringPut c s)")
  have "identLoop c1 s1 = (c', s')"
    using assms(1) identLoop_step [OF assms(2) g] by simp
  then have "in_hand c' s' \<le> in_hand c1 s1"
    by (rule identLoop_in_hand)
  also have "in_hand c1 s1 \<le> chars_left s"
    using cppGetc_in_hand [OF g] by simp
  finally show ?thesis .
qed

lemma chars_left_cppUngetc:
  "chars_left (cppUngetc c s) \<le> in_hand c s"
  by (simp add: cppUngetc_def chars_left_def in_hand_def)

text \<open>The measure of the token loops: the current token counts unless it is the end.\<close>

definition tokens_left :: "pstate \<Rightarrow> nat" where
  "tokens_left s = chars_left s + (if token_type s = TOKEN_EOF then 0 else 1)"

lemma nextToken_tokens_left:
  "tokens_left (nextToken s) \<le> chars_left s"
proof (induction s rule: nextToken.induct)
  case (1 s)
  obtain c s1 where g: "cppGetc s = (c, s1)"
    by (cases "cppGetc s")
  note le = cppGetc_chars_left_le [OF g] and less = cppGetc_chars_left_less [OF g]
  consider (eof) "c \<le> 0"
    | (punct) "0 < c" "c = ch CHR ''{'' \<or> c = ch CHR ''}'' \<or> c = ch CHR '';'' \<or>
                c = ch CHR ''.'' \<or> c = ch CHR ''=''"
    | (ident) "0 < c" "\<not> (c = ch CHR ''{'' \<or> c = ch CHR ''}'' \<or> c = ch CHR '';'' \<or>
                c = ch CHR ''.'' \<or> c = ch CHR ''='')" "isalnum c \<or> c = ch CHR ''_''"
    | (other) "0 < c" "\<not> (c = ch CHR ''{'' \<or> c = ch CHR ''}'' \<or> c = ch CHR '';'' \<or>
                c = ch CHR ''.'' \<or> c = ch CHR ''='')" "\<not> (isalnum c \<or> c = ch CHR ''_'')"
    by linarith
  then show ?case
  proof cases
    case eof
    then have "nextToken s = s1\<lparr>token_type := TOKEN_EOF\<rparr>"
      using g by (simp add: nextToken_eof)
    then show ?thesis
      using le by (simp add: tokens_left_def chars_left_def)
  next
    case punct
    then have "nextToken s = s1\<lparr>token_type := c\<rparr>"
      using g nextToken_punct by blast
    then show ?thesis
      using less punct(1) by (simp add: tokens_left_def chars_left_def)
  next
    case ident
    obtain c' s2 where i: "identLoop c (vStringClear (s1\<lparr>token_type := TOKEN_ID\<rparr>)) = (c', s2)"
      by (cases "identLoop c (vStringClear (s1\<lparr>token_type := TOKEN_ID\<rparr>))")
    have n: "nextToken s = cppUngetc c' s2"
      using g ident i nextToken_ident by blast
    have "in_hand c' s2 \<le> chars_left (vStringClear (s1\<lparr>token_type := TOKEN_ID\<rparr>))"
      using identLoop_in_hand_less [OF i] ident by simp
    also have "\<dots> = chars_left s1"
      by (simp add: vStringClear_def chars_left_def)
    finally have "chars_left (cppUngetc c' s2) < chars_left s"
      using chars_left_cppUngetc [of c' s2] less ident(1) by simp
    then show ?thesis
      using n by (simp add: tokens_left_def)
  next
    case other
    then have "nextToken s = nextToken s1"
      using g nextToken_other by blast
    moreover have "tokens_left (nextToken s1) \<le> chars_left s1"
      using "1.IH" [OF g [symmetric]] other by simp
    ultimately show ?thesis
      using less other(1) by simp
  qed
qed

subsection \<open>Skipping, tags and the statement parsers\<close>

text \<open>\<^verbatim>\<open>strchr (punctuation, c) != NULL\<close>: the terminating NUL of the string matches too.\<close>

definition strchr :: "string \<Rightarrow> int \<Rightarrow> bool" where
  "strchr punctuation c = (c = 0 \<or> c \<in> set (map ch punctuation))"

function skipUntil :: "string \<Rightarrow> pstate \<Rightarrow> pstate" where
  "skipUntil punctuation s =
     (if token_type s \<noteq> TOKEN_EOF \<and> \<not> strchr punctuation (token_type s)
      then skipUntil punctuation (nextToken s)
      else s)"
  by pat_completeness auto
termination
proof (relation "measure (\<lambda>(p, s). tokens_left s)")
  show "wf (measure (\<lambda>(p, s). tokens_left s))"
    by simp
next
  fix punctuation :: string and s :: pstate
  assume "token_type s \<noteq> TOKEN_EOF \<and> \<not> strchr punctuation (token_type s)"
  then have "chars_left s < tokens_left s"
    by (simp add: tokens_left_def)
  then show "((punctuation, nextToken s), (punctuation, s)) \<in> measure (\<lambda>(p, s). tokens_left s)"
    using nextToken_tokens_left [of s] by simp
qed

declare skipUntil.simps [simp del]

lemma skipUntil_stop:
  "\<not> (token_type s \<noteq> TOKEN_EOF \<and> \<not> strchr p (token_type s)) \<Longrightarrow> skipUntil p s = s"
  by (subst skipUntil.simps) (rule if_not_P)

lemma skipUntil_step:
  "token_type s \<noteq> TOKEN_EOF \<and> \<not> strchr p (token_type s) \<Longrightarrow>
   skipUntil p s = skipUntil p (nextToken s)"
  by (subst skipUntil.simps) (rule if_P)

lemma chars_le_tokens_left: "chars_left s \<le> tokens_left s"
  by (simp add: tokens_left_def)

lemma skipUntil_tokens_left:
  "tokens_left (skipUntil p s) \<le> tokens_left s"
proof (induction p s rule: skipUntil.induct)
  case (1 p s)
  show ?case
  proof (cases "token_type s \<noteq> TOKEN_EOF \<and> \<not> strchr p (token_type s)")
    case True
    have "tokens_left (skipUntil p (nextToken s)) \<le> tokens_left (nextToken s)"
      using "1.IH" [OF True] .
    also have "\<dots> \<le> chars_left s"
      by (rule nextToken_tokens_left)
    also have "\<dots> \<le> tokens_left s"
      by (rule chars_le_tokens_left)
    finally show ?thesis
      using skipUntil_step [OF True] by simp
  next
    case False
    then show ?thesis
      using skipUntil_stop [OF False] by simp
  qed
qed

lemma skipUntil_tokens_left_less:
  assumes "token_type s \<noteq> TOKEN_EOF \<and> \<not> strchr p (token_type s)"
  shows "tokens_left (skipUntil p s) \<le> chars_left s"
proof -
  have "tokens_left (skipUntil p (nextToken s)) \<le> tokens_left (nextToken s)"
    by (rule skipUntil_tokens_left)
  also have "\<dots> \<le> chars_left s"
    by (rule nextToken_tokens_left)
  finally show ?thesis
    using skipUntil_step [OF assms] by simp
qed

definition tokenIsKeyword :: "string \<Rightarrow> pstate \<Rightarrow> bool" where
  "tokenIsKeyword keyword s = (token_type s = TOKEN_ID \<and> token_value s = keyword)"

text \<open>\<^verbatim>\<open>makeTagEntry\<close> hands the tag to the host; here it is appended to \<open>tags\<close>.\<close>

definition makeTagEntry :: "tagEntryInfo \<Rightarrow> pstate \<Rightarrow> pstate" where
  "makeTagEntry tag s = s\<lparr>tags := tags s @ [tag]\<rparr>"

definition createProtobufTag ::
    "(protobufKind \<Rightarrow> kindOption) \<Rightarrow> string \<Rightarrow> protobufKind \<Rightarrow> pstate \<Rightarrow> pstate" where
  "createProtobufTag kinds nm k s =
     (if enabled (kinds k)
      then makeTagEntry \<lparr>tagName = nm, kindName = name (kinds k), kind = letter (kinds k)\<rparr> s
      else s)"

text \<open>One pass through the body of the \<^verbatim>\<open>while\<close> of \<^verbatim>\<open>parseEnumConstants\<close>.\<close>

definition enumBody :: "(protobufKind \<Rightarrow> kindOption) \<Rightarrow> pstate \<Rightarrow> pstate" where
  "enumBody kinds s =
     (let s1 = (if token_type s = TOKEN_ID \<and> \<not> tokenIsKeyword ''option'' s then
                  (let s' = nextToken s in
                   if token_type s' = ch CHR ''=''
                   then createProtobufTag kinds (token_value s') PK_ENUMERATOR s'
                   else s')
                else s);
          s2 = skipUntil '';}'' s1
      in if token_type s2 = ch CHR '';'' then nextToken s2 else s2)"

lemma tokens_left_createProtobufTag [simp]:
  "tokens_left (createProtobufTag kinds nm k s) = tokens_left s"
  by (simp add: createProtobufTag_def makeTagEntry_def tokens_left_def chars_left_def)

lemma enumBody_tokens_left:
  assumes "token_type s \<noteq> TOKEN_EOF \<and> token_type s \<noteq> ch CHR ''}''"
  shows "tokens_left (enumBody kinds s) \<le> chars_left s"
proof -
  define s1 where "s1 = (if token_type s = TOKEN_ID \<and> \<not> tokenIsKeyword ''option'' s then
                  (let s' = nextToken s in
                   if token_type s' = ch CHR ''=''
                   then createProtobufTag kinds (token_value s') PK_ENUMERATOR s'
                   else s')
                else s)"
  define s2 where "s2 = skipUntil '';}'' s1"
  have e: "enumBody kinds s = (if token_type s2 = ch CHR '';'' then nextToken s2 else s2)"
    by (simp add: enumBody_def s1_def s2_def Let_def del: of_char_Char)
  have last: "tokens_left (enumBody kinds s) \<le> tokens_left s2"
    using nextToken_tokens_left [of s2] chars_le_tokens_left [of s2] by (simp add: e)
  show ?thesis
  proof (cases "token_type s = TOKEN_ID \<and> \<not> tokenIsKeyword ''option'' s")
    case True
    then have "tokens_left s1 = tokens_left (nextToken s)"
      by (simp add: s1_def Let_def)
    then have "tokens_left s2 \<le> chars_left s"
      using skipUntil_tokens_left [of "'';}''" s1] nextToken_tokens_left [of s]
      by (simp add: s2_def)
    then show ?thesis
      using last by simp
  next
    case False
    have s1: "s1 = s"
      unfolding s1_def using False by (rule if_not_P)
    show ?thesis
    proof (cases "token_type s = ch CHR '';''")
      case True
      then have "s2 = s"
        using skipUntil_stop [of s "'';}''"] by (simp add: s2_def s1 strchr_def)
      then show ?thesis
        using True nextToken_tokens_left [of s] by (simp add: e)
    next
      case semi: False
      have "token_type s \<noteq> TOKEN_EOF \<and> \<not> strchr '';}'' (token_type s)"
        using assms semi by (simp add: strchr_def TOKEN_EOF_def)
      then have "tokens_left s2 \<le> chars_left s"
        unfolding s2_def s1 by (rule skipUntil_tokens_left_less)
      then show ?thesis
        using last by simp
    qed
  qed
qed

function enumLoop :: "(protobufKind \<Rightarrow> kindOption) \<Rightarrow> pstate \<Rightarrow> pstate" where
  "enumLoop kinds s =
     (if token_type s \<noteq> TOKEN_EOF \<and> token_type s \<noteq> ch CHR ''}''
      then enumLoop kinds (enumBody kinds s)
      else s)"
  by pat_completeness auto
termination
proof (relation "measure (\<lambda>(kinds, s). tokens_left s)")
  show "wf (measure (\<lambda>(kinds, s). tokens_left s))"
    by simp
next
  fix kinds :: "protobufKind \<Rightarrow> kindOption" and s :: pstate
  assume a: "token_type s \<noteq> TOKEN_EOF \<and> token_type s \<noteq> ch CHR ''}''"
  then have "chars_left s < tokens_left s"
    by (simp add: tokens_left_def)
  then show "((kinds, enumBody kinds s), (kinds, s)) \<in> measure (\<lambda>(kinds, s). tokens_left s)"
    using enumBody_tokens_left [OF a, of kinds] by simp
qed

declare enumLoop.simps [simp del]

definition parseEnumConstants :: "(protobufKind \<Rightarrow> kindOption) \<Rightarrow> pstate \<Rightarrow> pstate" where
  "parseEnumConstants kinds s =
     (if token_type s \<noteq> ch CHR ''{'' then s else enumLoop kinds (nextToken s))"


lemma field_type_progress:
  assumes "s1 = (if token_type s = ch CHR ''.'' then nextToken s else s)"
    and "token_type s1 = TOKEN_ID" and "token_type (nextToken s1) = ch CHR ''.''"
  shows "tokens_left (nextToken s1) < tokens_left s"
proof -
  have "chars_left s1 < tokens_left s"
  proof (cases "token_type s = ch CHR ''.''")
    case True
    then have "chars_left s1 \<le> chars_left s"
      using nextToken_tokens_left [of s] chars_le_tokens_left [of s1] by (simp add: assms(1))
    moreover have "chars_left s < tokens_left s"
      using True by (simp add: tokens_left_def TOKEN_EOF_def)
    ultimately show ?thesis
      by simp
  next
    case False
    then have "s1 = s"
      by (simp add: assms(1))
    then show ?thesis
      using assms(2) by (simp add: tokens_left_def TOKEN_EOF_def TOKEN_ID_def)
  qed
  then show ?thesis
    using nextToken_tokens_left [of s1] by simp
qed

text \<open>The \<^verbatim>\<open>do ... while\<close> of \<^verbatim>\<open>parseStatement\<close> that skips a field's type. The
  flag is \<open>False\<close> when the source leaves the function by its \<^verbatim>\<open>return\<close>.\<close>

function skipFieldType :: "pstate \<Rightarrow> bool \<times> pstate" where
  "skipFieldType s =
     (let s1 = (if token_type s = ch CHR ''.'' then nextToken s else s) in
      if token_type s1 \<noteq> TOKEN_ID then (False, s1)
      else if token_type (nextToken s1) = ch CHR ''.'' then skipFieldType (nextToken s1)
      else (True, nextToken s1))"
  by pat_completeness auto
termination
proof (relation "measure tokens_left")
  show "wf (measure tokens_left)"
    by simp
next
  fix s s1 :: pstate
  assume "s1 = (if token_type s = ch CHR ''.'' then nextToken s else s)"
    and "\<not> token_type s1 \<noteq> TOKEN_ID"
    and "token_type (nextToken s1) = ch CHR ''.''"
  then show "(nextToken s1, s) \<in> measure tokens_left"
    using field_type_progress [of s1 s] by simp
qed

declare skipFieldType.simps [simp del]

definition parseStatement ::
    "(protobufKind \<Rightarrow> kindOption) \<Rightarrow> protobufKind \<Rightarrow> pstate \<Rightarrow> pstate" where
  "parseStatement kinds k s =
     (case (if k = PK_FIELD then skipFieldType (nextToken s) else (True, nextToken s)) of
        (ok, s1) \<Rightarrow>
          if \<not> ok then s1
          else if token_type s1 \<noteq> TOKEN_ID then s1
          else
            (let s2 = nextToken (createProtobufTag kinds (token_value s1) k s1)
             in if k = PK_ENUM then parseEnumConstants kinds s2 else s2))"

text \<open>The keyword dispatch at the head of the loop of \<^verbatim>\<open>findProtobufTags\<close>.\<close>

definition dispatch :: "(protobufKind \<Rightarrow> kindOption) \<Rightarrow> pstate \<Rightarrow> pstate" where
  "dispatch kinds s =
     (if tokenIsKeyword ''package'' s then parseStatement kinds PK_PACKAGE s
      else if tokenIsKeyword ''message'' s then parseStatement kinds PK_MESSAGE s
      else if tokenIsKeyword ''enum'' s then parseStatement kinds PK_ENUM s
      else if tokenIsKeyword ''repeated'' s \<or> tokenIsKeyword ''optional'' s \<or>
              tokenIsKeyword ''required'' s then parseStatement kinds PK_FIELD s
      else if tokenIsKeyword ''service'' s then parseStatement kinds PK_SERVICE s
      else if tokenIsKeyword ''rpc'' s then parseStatement kinds PK_RPC s
      else s)"

text \<open>One pass through the body of that loop.\<close>

definition mainBody :: "(protobufKind \<Rightarrow> kindOption) \<Rightarrow> pstate \<Rightarrow> pstate" where
  "mainBody kinds s = nextToken (skipUntil '';{}'' (dispatch kinds s))"


subsection \<open>No operation gives characters back\<close>

lemma nextToken_chars_left:
  "chars_left (nextToken s) \<le> chars_left s"
  using nextToken_tokens_left [of s] chars_le_tokens_left [of "nextToken s"] by simp

lemma skipUntil_chars_left:
  "chars_left (skipUntil p s) \<le> chars_left s"
proof (induction p s rule: skipUntil.induct)
  case (1 p s)
  show ?case
  proof (cases "token_type s \<noteq> TOKEN_EOF \<and> \<not> strchr p (token_type s)")
    case True
    have "chars_left (skipUntil p (nextToken s)) \<le> chars_left (nextToken s)"
      using "1.IH" [OF True] .
    also have "\<dots> \<le> chars_left s"
      by (rule nextToken_chars_left)
    finally show ?thesis
      using skipUntil_step [OF True] by simp
  next
    case False
    then show ?thesis
      using skipUntil_stop [OF False] by simp
  qed
qed

lemma chars_left_createProtobufTag [simp]:
  "chars_left (createProtobufTag kinds nm k s) = chars_left s"
  by (simp add: createProtobufTag_def makeTagEntry_def chars_left_def)

lemma enumBody_chars_left:
  "chars_left (enumBody kinds s) \<le> chars_left s"
proof -
  define s1 where "s1 = (if token_type s = TOKEN_ID \<and> \<not> tokenIsKeyword ''option'' s then
                  (let s' = nextToken s in
                   if token_type s' = ch CHR ''=''
                   then createProtobufTag kinds (token_value s') PK_ENUMERATOR s'
                   else s')
                else s)"
  define s2 where "s2 = skipUntil '';}'' s1"
  have e: "enumBody kinds s = (if token_type s2 = ch CHR '';'' then nextToken s2 else s2)"
    by (simp add: enumBody_def s1_def s2_def Let_def del: of_char_Char)
  have "chars_left (enumBody kinds s) \<le> chars_left s2"
    using nextToken_chars_left [of s2] by (simp add: e)
  also have "\<dots> \<le> chars_left s1"
    unfolding s2_def by (rule skipUntil_chars_left)
  also have "\<dots> \<le> chars_left s"
    using nextToken_chars_left [of s] by (simp add: s1_def Let_def)
  finally show ?thesis .
qed

lemma enumLoop_stop:
  "\<not> (token_type s \<noteq> TOKEN_EOF \<and> token_type s \<noteq> ch CHR ''}'') \<Longrightarrow> enumLoop kinds s = s"
  by (subst enumLoop.simps) (rule if_not_P)

lemma enumLoop_step:
  "token_type s \<noteq> TOKEN_EOF \<and> token_type s \<noteq> ch CHR ''}'' \<Longrightarrow>
   enumLoop kinds s = enumLoop kinds (enumBody kinds s)"
  by (subst enumLoop.simps) (rule if_P)

lemma enumLoop_chars_left:
  "chars_left (enumLoop kinds s) \<le> chars_left s"
proof (induction kinds s rule: enumLoop.induct)
  case (1 kinds s)
  show ?case
  proof (cases "token_type s \<noteq> TOKEN_EOF \<and> token_type s \<noteq> ch CHR ''}''")
    case True
    have "chars_left (enumLoop kinds (enumBody kinds s)) \<le> chars_left (enumBody kinds s)"
      using "1.IH" [OF True] .
    also have "\<dots> \<le> chars_left s"
      by (rule enumBody_chars_left)
    finally show ?thesis
      using enumLoop_step [OF True] by simp
  next
    case False
    then show ?thesis
      using enumLoop_stop [OF False] by simp
  qed
qed

lemma parseEnumConstants_chars_left:
  "chars_left (parseEnumConstants kinds s) \<le> chars_left s"
proof (cases "token_type s \<noteq> ch CHR ''{''")
  case True
  then show ?thesis
    by (simp add: parseEnumConstants_def)
next
  case False
  have "chars_left (enumLoop kinds (nextToken s)) \<le> chars_left (nextToken s)"
    by (rule enumLoop_chars_left)
  also have "\<dots> \<le> chars_left s"
    by (rule nextToken_chars_left)
  finally show ?thesis
    using False by (simp add: parseEnumConstants_def)
qed

lemma skipFieldType_chars_left:
  "chars_left (snd (skipFieldType s)) \<le> chars_left s"
proof (induction s rule: skipFieldType.induct)
  case (1 s)
  define s1 where "s1 = (if token_type s = ch CHR ''.'' then nextToken s else s)"
  have s1: "chars_left s1 \<le> chars_left s"
    using nextToken_chars_left [of s] by (simp add: s1_def)
  have n: "chars_left (nextToken s1) \<le> chars_left s"
    using nextToken_chars_left [of s1] s1 by simp
  have unfold: "skipFieldType s =
      (if token_type s1 \<noteq> TOKEN_ID then (False, s1)
       else if token_type (nextToken s1) = ch CHR ''.'' then skipFieldType (nextToken s1)
       else (True, nextToken s1))"
    by (subst skipFieldType.simps) (simp add: s1_def Let_def del: of_char_Char)
  consider (abort) "token_type s1 \<noteq> TOKEN_ID"
    | (again) "\<not> token_type s1 \<noteq> TOKEN_ID" "token_type (nextToken s1) = ch CHR ''.''"
    | (finished) "\<not> token_type s1 \<noteq> TOKEN_ID" "token_type (nextToken s1) \<noteq> ch CHR ''.''"
    by blast
  then show ?case
  proof cases
    case abort
    then show ?thesis
      using s1 by (simp add: unfold)
  next
    case again
    have "chars_left (snd (skipFieldType (nextToken s1))) \<le> chars_left (nextToken s1)"
      using "1.IH" [OF s1_def again] .
    then show ?thesis
      using again n by (simp add: unfold del: of_char_Char)
  next
    case finished
    then show ?thesis
      using n by (simp add: unfold del: of_char_Char)
  qed
qed

lemma parseStatement_chars_left:
  "chars_left (parseStatement kinds k s) \<le> chars_left s"
proof -
  obtain ok s1 where r: "(if k = PK_FIELD then skipFieldType (nextToken s) else (True, nextToken s)) = (ok, s1)"
    by (cases "if k = PK_FIELD then skipFieldType (nextToken s) else (True, nextToken s)")
  have s1: "chars_left s1 \<le> chars_left s"
  proof (cases "k = PK_FIELD")
    case True
    then have "s1 = snd (skipFieldType (nextToken s))"
      using r by simp
    then show ?thesis
      using skipFieldType_chars_left [of "nextToken s"] nextToken_chars_left [of s] by simp
  next
    case False
    then show ?thesis
      using r nextToken_chars_left [of s] by auto
  qed
  define s2 where "s2 = nextToken (createProtobufTag kinds (token_value s1) k s1)"
  have s2: "chars_left s2 \<le> chars_left s"
    using nextToken_chars_left [of "createProtobufTag kinds (token_value s1) k s1"] s1
    by (simp add: s2_def)
  have "parseStatement kinds k s =
      (if \<not> ok then s1 else if token_type s1 \<noteq> TOKEN_ID then s1
       else if k = PK_ENUM then parseEnumConstants kinds s2 else s2)"
    by (simp add: parseStatement_def r s2_def Let_def)
  then show ?thesis
    using s1 s2 parseEnumConstants_chars_left [of kinds s2] by auto
qed

lemma dispatch_chars_left:
  "chars_left (dispatch kinds s) \<le> chars_left s"
  by (simp add: dispatch_def parseStatement_chars_left)

lemma mainBody_tokens_left:
  "tokens_left (mainBody kinds s) \<le> chars_left s"
proof -
  have "tokens_left (mainBody kinds s) \<le> chars_left (skipUntil '';{}'' (dispatch kinds s))"
    unfolding mainBody_def by (rule nextToken_tokens_left)
  also have "\<dots> \<le> chars_left (dispatch kinds s)"
    by (rule skipUntil_chars_left)
  also have "\<dots> \<le> chars_left s"
    by (rule dispatch_chars_left)
  finally show ?thesis .
qed

function mainLoop :: "(protobufKind \<Rightarrow> kindOption) \<Rightarrow> pstate \<Rightarrow> pstate" where
  "mainLoop kinds s =
     (if token_type s \<noteq> TOKEN_EOF then mainLoop kinds (mainBody kinds s) else s)"
  by pat_completeness auto
termination
proof (relation "measure (\<lambda>(kinds, s). tokens_left s)")
  show "wf (measure (\<lambda>(kinds, s). tokens_left s))"
    by simp
next
  fix kinds :: "protobufKind \<Rightarrow> kindOption" and s :: pstate
  assume "token_type s \<noteq> TOKEN_EOF"
  then have "chars_left s < tokens_left s"
    by (simp add: tokens_left_def)
  then show "((kinds, mainBody kinds s), (kinds, s)) \<in> measure (\<lambda>(kinds, s). tokens_left s)"
    using mainBody_tokens_left [of kinds s] by simp
qed

declare mainLoop.simps [simp del]

text \<open>Modelled from the spec: \<^verbatim>\<open>cppInit\<close> (get.c is not part of the sources at hand)
  attaches the supplier to the characters of the file, with nothing pushed back.\<close>

definition cppInit :: "char list \<Rightarrow> pstate \<Rightarrow> pstate" where
  "cppInit file s = s\<lparr>input := file, ungetch := None, calls := []\<rparr>"

text \<open>\<^verbatim>\<open>findProtobufTags\<close>. The static \<^verbatim>\<open>token\<close> keeps whatever \<^verbatim>\<open>type\<close> an earlier
  run left in it; \<^verbatim>\<open>vStringNew\<close> gives it an empty \<^verbatim>\<open>value\<close>. The closing calls
  \<^verbatim>\<open>vStringDelete\<close> and \<^verbatim>\<open>cppTerminate\<close> release the buffer and the supplier; the
  state returned is the one they find.\<close>

definition findProtobufTags ::
    "(protobufKind \<Rightarrow> kindOption) \<Rightarrow> char list \<Rightarrow> pstate \<Rightarrow> pstate" where
  "findProtobufTags kinds file s =
     mainLoop kinds (nextToken ((cppInit file s)\<lparr>token_value := []\<rparr>))"

text \<open>The state before the first run: the static \<^verbatim>\<open>token\<close> is zero-initialised and no
  tag has been made.\<close>

definition initial :: pstate where
  "initial =
     \<lparr>input = [], ungetch = None, calls = [], token_type = TOKEN_EOF, token_value = [],
      tags = []\<rparr>"

subsection \<open>Predicates on the log of supplier calls\<close>

text \<open>On the call log (latest call first): every \<open>Ungetc\<close> comes right after a \<open>Getc\<close>.\<close>

fun unget_after_get :: "cppCall list \<Rightarrow> bool" where
  "unget_after_get [] = True"
| "unget_after_get (Getc # cs) = unget_after_get cs"
| "unget_after_get (Ungetc # cs) =
     (case cs of Getc # _ \<Rightarrow> unget_after_get cs | _ \<Rightarrow> False)"

text \<open>The number of pushed-back characters not yet fetched again after the logged calls.\<close>

fun outstanding :: "cppCall list \<Rightarrow> nat" where
  "outstanding [] = 0"
| "outstanding (Getc # cs) = outstanding cs - 1"
| "outstanding (Ungetc # cs) = Suc (outstanding cs)"

subsection \<open>Relations between two runs\<close>

text \<open>A run in state \<open>s'\<close> resumes the run in state \<open>s\<close> after the tags \<open>p\<close>: both have the
  same characters ahead and the same current token, and \<open>s'\<close> has made the tags \<open>p\<close>
  before those of \<open>s\<close>.\<close>

definition resumes :: "tagEntryInfo list \<Rightarrow> pstate \<Rightarrow> pstate \<Rightarrow> bool" where
  "resumes p s s' \<longleftrightarrow>
     input s' = input s \<and> ungetch s' = ungetch s \<and> token_type s' = token_type s \<and>
     (if token_type s = TOKEN_ID then token_value s' = token_value s else True) \<and>
     tags s' = p @ tags s"

text \<open>The source's kind table with the \<open>enabled\<close> flags set by the host to \<open>en\<close>.\<close>

definition setEnabled :: "(protobufKind \<Rightarrow> bool) \<Rightarrow> protobufKind \<Rightarrow> kindOption" where
  "setEnabled en k = (ProtobufKinds k)\<lparr>enabled := en k\<rparr>"

definition allKinds :: "protobufKind list" where
  "allKinds = [PK_PACKAGE, PK_MESSAGE, PK_FIELD, PK_ENUMERATOR, PK_ENUM, PK_SERVICE, PK_RPC]"

text \<open>The tag carries the letter of a kind that \<open>en\<close> enables.\<close>

definition kindEnabled :: "(protobufKind \<Rightarrow> bool) \<Rightarrow> tagEntryInfo \<Rightarrow> bool" where
  "kindEnabled en t = (kind t \<in> set (map (\<lambda>k. letter (ProtobufKinds k)) (filter en allKinds)))"

text \<open>The run in \<open>s'\<close> is the run in \<open>s\<close> with the tags of disabled kinds left out.\<close>

definition suppressed :: "(protobufKind \<Rightarrow> bool) \<Rightarrow> pstate \<Rightarrow> pstate \<Rightarrow> bool" where
  "suppressed en s s' \<longleftrightarrow>
     input s' = input s \<and> ungetch s' = ungetch s \<and> calls s' = calls s \<and>
     token_type s' = token_type s \<and> token_value s' = token_value s \<and>
     tags s' = filter (kindEnabled en) (tags s)"

text \<open>Two runs, possibly under different kind tables, stay related by \<open>R\<close> when \<open>R\<close>
  makes them agree on the current token (and on its text when it is an identifier)
  and is kept by the two primitive steps: fetching a token and making a tag.\<close>

definition in_step ::
    "(pstate \<Rightarrow> pstate \<Rightarrow> bool) \<Rightarrow> (protobufKind \<Rightarrow> kindOption) \<Rightarrow>
     (protobufKind \<Rightarrow> kindOption) \<Rightarrow> bool" where
  "in_step R kinds kinds' \<longleftrightarrow>
     (\<forall>s s'. R s s' \<longrightarrow>
        token_type s' = token_type s \<and>
        (token_type s = TOKEN_ID \<longrightarrow> token_value s' = token_value s) \<and>
        R (nextToken s) (nextToken s') \<and>
        (\<forall>nm k. R (createProtobufTag kinds nm k s) (createProtobufTag kinds' nm k s')))"

subsection \<open>Dotted type names\<close>

text \<open>The tokens from the state \<open>t\<close> on are a dotted name of \<open>n + 1\<close> identifiers: the
  current token is an identifier, \<open>n\<close> times a dot and an identifier follow, and the
  token after the last identifier is not a dot.\<close>

fun dottedPath :: "nat \<Rightarrow> pstate \<Rightarrow> bool" where
  "dottedPath 0 t = (token_type t = TOKEN_ID \<and> token_type (nextToken t) \<noteq> ch CHR ''.'')"
| "dottedPath (Suc n) t =
     (token_type t = TOKEN_ID \<and> token_type (nextToken t) = ch CHR ''.'' \<and>
      dottedPath n (nextToken (nextToken t)))"

subsection \<open>Character classes\<close>

text \<open>The character classes of the tokenizer, on characters of the input.\<close>

definition punctuation :: "char \<Rightarrow> bool" where
  "punctuation c = (c \<in> set ''{};.='')"

definition identChar :: "char \<Rightarrow> bool" where
  "identChar c = (isalnum (ch c) \<or> c = CHR ''_'')"

section \<open>Properties\<close>

subsection \<open>What the tokenizer leaves alone\<close>

lemma cppGetc_frame:
  assumes "cppGetc s = (c, s1)"
  shows "tags s1 = tags s" and "token_type s1 = token_type s"
    and "token_value s1 = token_value s" and "calls s1 = Getc # calls s"
  using assms by (auto simp: cppGetc_def split: option.splits list.splits)

lemma identLoop_frame:
  "identLoop c s = (c', s') \<Longrightarrow> tags s' = tags s \<and> token_type s' = token_type s"
proof (induction c s rule: identLoop.induct)
  case (1 c s)
  show ?case
  proof (cases "0 < c \<and> (isalnum c \<or> c = ch CHR ''_'')")
    case True
    obtain c1 s1 where g: "cppGetc (vStringPut c s) = (c1, s1)"
      by (cases "cppGetc (vStringPut c s)")
    have "identLoop c1 s1 = (c', s')"
      using "1.prems" identLoop_step [OF True g] by simp
    then have "tags s' = tags s1 \<and> token_type s' = token_type s1"
      using "1.IH" [OF True g [symmetric]] by simp
    then show ?thesis
      using cppGetc_frame [OF g] by (simp add: vStringPut_def)
  next
    case False
    then show ?thesis
      using "1.prems" identLoop_stop [OF False, of s] by simp
  qed
qed

lemma nextToken_cases [consumes 1, case_names eof punct ident other]:
  assumes "cppGetc s = (c, s1)"
    and "c \<le> 0 \<Longrightarrow> nextToken s = s1\<lparr>token_type := TOKEN_EOF\<rparr> \<Longrightarrow> P"
    and "0 < c \<Longrightarrow> c = ch CHR ''{'' \<or> c = ch CHR ''}'' \<or> c = ch CHR '';'' \<or>
           c = ch CHR ''.'' \<or> c = ch CHR ''='' \<Longrightarrow> nextToken s = s1\<lparr>token_type := c\<rparr> \<Longrightarrow> P"
    and "\<And>c' s2. 0 < c \<Longrightarrow> isalnum c \<or> c = ch CHR ''_'' \<Longrightarrow>
           identLoop c (vStringClear (s1\<lparr>token_type := TOKEN_ID\<rparr>)) = (c', s2) \<Longrightarrow>
           nextToken s = cppUngetc c' s2 \<Longrightarrow> P"
    and "0 < c \<Longrightarrow>
           \<not> (c = ch CHR ''{'' \<or> c = ch CHR ''}'' \<or> c = ch CHR '';'' \<or>
              c = ch CHR ''.'' \<or> c = ch CHR ''='') \<Longrightarrow>
           \<not> (isalnum c \<or> c = ch CHR ''_'') \<Longrightarrow> nextToken s = nextToken s1 \<Longrightarrow> P"
  shows P
proof -
  consider (eof) "c \<le> 0"
    | (punct) "0 < c" "c = ch CHR ''{'' \<or> c = ch CHR ''}'' \<or> c = ch CHR '';'' \<or>
                c = ch CHR ''.'' \<or> c = ch CHR ''=''"
    | (ident) "0 < c" "\<not> (c = ch CHR ''{'' \<or> c = ch CHR ''}'' \<or> c = ch CHR '';'' \<or>
                c = ch CHR ''.'' \<or> c = ch CHR ''='')" "isalnum c \<or> c = ch CHR ''_''"
    | (other) "0 < c" "\<not> (c = ch CHR ''{'' \<or> c = ch CHR ''}'' \<or> c = ch CHR '';'' \<or>
                c = ch CHR ''.'' \<or> c = ch CHR ''='')" "\<not> (isalnum c \<or> c = ch CHR ''_'')"
    by linarith
  then show P
  proof cases
    case eof
    then show ?thesis
      using assms(2) nextToken_eof [OF assms(1)] by blast
  next
    case punct
    then show ?thesis
      using assms(3) nextToken_punct [OF assms(1)] by blast
  next
    case ident
    obtain c' s2 where i: "identLoop c (vStringClear (s1\<lparr>token_type := TOKEN_ID\<rparr>)) = (c', s2)"
      by (cases "identLoop c (vStringClear (s1\<lparr>token_type := TOKEN_ID\<rparr>))")
    show ?thesis
      using assms(4) [OF ident(1) ident(3) i] nextToken_ident [OF assms(1) ident i] by blast
  next
    case other
    then show ?thesis
      using assms(5) nextToken_other [OF assms(1)] by blast
  qed
qed

lemma nextToken_tags [simp]:
  "tags (nextToken s) = tags s"
proof (induction s rule: nextToken.induct)
  case (1 s)
  obtain c s1 where g: "cppGetc s = (c, s1)"
    by (cases "cppGetc s")
  from g show ?case
  proof (cases rule: nextToken_cases)
    case eof
    then show ?thesis
      using cppGetc_frame [OF g] by simp
  next
    case punct
    then show ?thesis
      using cppGetc_frame [OF g] by simp
  next
    case (ident c' s2)
    then show ?thesis
      using cppGetc_frame [OF g] identLoop_frame [OF ident(3)]
      by (simp add: cppUngetc_def vStringClear_def)
  next
    case other
    then show ?thesis
      using cppGetc_frame [OF g] "1.IH" [OF g [symmetric]] by simp
  qed
qed

lemma nextToken_value_kept:
  "token_type (nextToken s) \<noteq> TOKEN_ID \<Longrightarrow> token_value (nextToken s) = token_value s"
proof (induction s rule: nextToken.induct)
  case (1 s)
  obtain c s1 where g: "cppGetc s = (c, s1)"
    by (cases "cppGetc s")
  from g show ?case
  proof (cases rule: nextToken_cases)
    case eof
    then show ?thesis
      using cppGetc_frame [OF g] by simp
  next
    case punct
    then show ?thesis
      using cppGetc_frame [OF g] by simp
  next
    case (ident c' s2)
    then have "token_type (nextToken s) = TOKEN_ID"
      using identLoop_frame [OF ident(3)] by (simp add: cppUngetc_def vStringClear_def)
    then show ?thesis
      using "1.prems" by simp
  next
    case other
    then show ?thesis
      using cppGetc_frame [OF g] "1.IH" [OF g [symmetric]] "1.prems" by simp
  qed
qed


subsection \<open>The tokenizer reads nothing but the supplier\<close>

lemma cppGetc_cong:
  assumes "input s' = input s" and "ungetch s' = ungetch s"
    and "cppGetc s = (c, s1)" and "cppGetc s' = (c', s1')"
  shows "c' = c" and "input s1' = input s1" and "ungetch s1' = ungetch s1"
  using assms by (auto simp: cppGetc_def split: option.splits list.splits)

lemma identLoop_cong:
  assumes "identLoop c s = (c1, t)" and "identLoop c s' = (c1', t')"
    and "input s' = input s" and "ungetch s' = ungetch s" and "token_value s' = token_value s"
  shows "c1' = c1 \<and> input t' = input t \<and> ungetch t' = ungetch t \<and>
         token_value t' = token_value t \<and> (calls s' = calls s \<longrightarrow> calls t' = calls t)"
  using assms
proof (induction c s arbitrary: s' rule: identLoop.induct)
  case (1 c s)
  show ?case
  proof (cases "0 < c \<and> (isalnum c \<or> c = ch CHR ''_'')")
    case True
    obtain d u where g: "cppGetc (vStringPut c s) = (d, u)"
      by (cases "cppGetc (vStringPut c s)")
    obtain d' u' where g': "cppGetc (vStringPut c s') = (d', u')"
      by (cases "cppGetc (vStringPut c s')")
    have same: "input (vStringPut c s') = input (vStringPut c s)"
      "ungetch (vStringPut c s') = ungetch (vStringPut c s)"
      using "1.prems" by (simp_all add: vStringPut_def)
    note cg = cppGetc_cong [OF same g g']
    have l: "identLoop d u = (c1, t)"
      using "1.prems"(1) identLoop_step [OF True g] by simp
    have l': "identLoop d u' = (c1', t')"
      using "1.prems"(2) identLoop_step [OF True g'] cg(1) by simp
    have v: "token_value u' = token_value u"
      using cppGetc_frame(3) [OF g] cppGetc_frame(3) [OF g'] "1.prems"(5)
      by (simp add: vStringPut_def)
    have k: "calls s' = calls s \<Longrightarrow> calls u' = calls u"
      using cppGetc_frame(4) [OF g] cppGetc_frame(4) [OF g']
      by (simp add: vStringPut_def)
    show ?thesis
      using "1.IH" [OF True g [symmetric] l l' cg(2) cg(3) v] k by simp
  next
    case False
    then show ?thesis
      using "1.prems" identLoop_stop [OF False, of s] identLoop_stop [OF False, of s'] by simp
  qed
qed

lemma nextToken_cong:
  assumes "input s' = input s" and "ungetch s' = ungetch s"
  shows "input (nextToken s') = input (nextToken s) \<and>
         ungetch (nextToken s') = ungetch (nextToken s) \<and>
         token_type (nextToken s') = token_type (nextToken s) \<and>
         (token_type (nextToken s) = TOKEN_ID \<longrightarrow>
            token_value (nextToken s') = token_value (nextToken s)) \<and>
         (calls s' = calls s \<longrightarrow> calls (nextToken s') = calls (nextToken s))"
  using assms
proof (induction s arbitrary: s' rule: nextToken.induct)
  case (1 s)
  obtain c s1 where g: "cppGetc s = (c, s1)"
    by (cases "cppGetc s")
  obtain d s1' where g0: "cppGetc s' = (d, s1')"
    by (cases "cppGetc s'")
  note cg = cppGetc_cong [OF "1.prems" g g0]
  have g': "cppGetc s' = (c, s1')"
    using g0 cg(1) by simp
  have k: "calls s' = calls s \<Longrightarrow> calls s1' = calls s1"
    using cppGetc_frame(4) [OF g] cppGetc_frame(4) [OF g'] by simp
  from g show ?case
  proof (cases rule: nextToken_cases)
    case eof
    then show ?thesis
      using nextToken_eof [OF g'] cg k by (simp add: TOKEN_ID_def TOKEN_EOF_def)
  next
    case punct
    then show ?thesis
      using nextToken_punct [OF g'] cg k by (auto simp: TOKEN_ID_def)
  next
    case (ident c' s2)
    obtain c'' s2' where i': "identLoop c (vStringClear (s1'\<lparr>token_type := TOKEN_ID\<rparr>)) = (c'', s2')"
      by (cases "identLoop c (vStringClear (s1'\<lparr>token_type := TOKEN_ID\<rparr>))")
    have np: "\<not> (c = ch CHR ''{'' \<or> c = ch CHR ''}'' \<or> c = ch CHR '';'' \<or>
                c = ch CHR ''.'' \<or> c = ch CHR ''='')"
      using ident(2) by (auto simp: isalnum_def)
    have n': "nextToken s' = cppUngetc c'' s2'"
      using nextToken_ident [OF g' ident(1) np ident(2) i'] .
    have "c'' = c' \<and> input s2' = input s2 \<and> ungetch s2' = ungetch s2 \<and>
         token_value s2' = token_value s2 \<and>
         (calls (vStringClear (s1'\<lparr>token_type := TOKEN_ID\<rparr>)) =
          calls (vStringClear (s1\<lparr>token_type := TOKEN_ID\<rparr>)) \<longrightarrow> calls s2' = calls s2)"
      by (rule identLoop_cong [OF ident(3) i']) (simp_all add: vStringClear_def cg)
    then show ?thesis
      using ident(4) n' k identLoop_frame [OF ident(3)] identLoop_frame [OF i']
      by (simp add: cppUngetc_def vStringClear_def)
  next
    case other
    have "nextToken s' = nextToken s1'"
      using nextToken_other [OF g' other(1) other(2) other(3)] .
    then show ?thesis
      using other(4) "1.IH" [OF g [symmetric] _ _ _ cg(2) cg(3)] other k by simp
  qed
qed

subsection \<open>Two runs in step\<close>

lemma in_stepD:
  assumes "in_step R kinds kinds'" and "R s s'"
  shows "token_type s' = token_type s"
    and "token_type s = TOKEN_ID \<Longrightarrow> token_value s' = token_value s"
    and "R (nextToken s) (nextToken s')"
    and "R (createProtobufTag kinds nm k s) (createProtobufTag kinds' nm k s')"
  using assms unfolding in_step_def by blast+

lemma in_step_keyword:
  assumes "in_step R kinds kinds'" and "R s s'"
  shows "tokenIsKeyword kw s' = tokenIsKeyword kw s"
  using in_stepD(1,2) [OF assms] by (auto simp: tokenIsKeyword_def)

lemma in_step_skipUntil:
  assumes "in_step R kinds kinds'"
  shows "R s s' \<Longrightarrow> R (skipUntil p s) (skipUntil p s')"
proof (induction p s arbitrary: s' rule: skipUntil.induct)
  case (1 p s)
  note ty = in_stepD(1) [OF assms "1.prems"]
  show ?case
  proof (cases "token_type s \<noteq> TOKEN_EOF \<and> \<not> strchr p (token_type s)")
    case True
    then have True': "token_type s' \<noteq> TOKEN_EOF \<and> \<not> strchr p (token_type s')"
      using ty by simp
    have "R (skipUntil p (nextToken s)) (skipUntil p (nextToken s'))"
      using "1.IH" [OF True in_stepD(3) [OF assms "1.prems"]] .
    then show ?thesis
      using skipUntil_step [OF True] skipUntil_step [OF True'] by simp
  next
    case False
    then have False': "\<not> (token_type s' \<noteq> TOKEN_EOF \<and> \<not> strchr p (token_type s'))"
      using ty by simp
    show ?thesis
      using skipUntil_stop [OF False] skipUntil_stop [OF False'] "1.prems" by simp
  qed
qed

lemma in_step_enumBody:
  assumes "in_step R kinds kinds'" and "R s s'"
  shows "R (enumBody kinds s) (enumBody kinds' s')"
proof -
  define s1 where "s1 = (if token_type s = TOKEN_ID \<and> \<not> tokenIsKeyword ''option'' s then
                  (let t = nextToken s in
                   if token_type t = ch CHR ''=''
                   then createProtobufTag kinds (token_value t) PK_ENUMERATOR t
                   else t)
                else s)"
  define s1' where "s1' = (if token_type s' = TOKEN_ID \<and> \<not> tokenIsKeyword ''option'' s' then
                  (let t = nextToken s' in
                   if token_type t = ch CHR ''=''
                   then createProtobufTag kinds' (token_value t) PK_ENUMERATOR t
                   else t)
                else s')"
  define s2 where "s2 = skipUntil '';}'' s1"
  define s2' where "s2' = skipUntil '';}'' s1'"
  have e: "enumBody kinds s = (if token_type s2 = ch CHR '';'' then nextToken s2 else s2)"
    by (simp add: enumBody_def s1_def s2_def Let_def del: of_char_Char)
  have e': "enumBody kinds' s' = (if token_type s2' = ch CHR '';'' then nextToken s2' else s2')"
    by (simp add: enumBody_def s1'_def s2'_def Let_def del: of_char_Char)
  have ty: "token_type s' = token_type s"
    using in_stepD(1) [OF assms] .
  have kw: "tokenIsKeyword ''option'' s' = tokenIsKeyword ''option'' s"
    using in_step_keyword [OF assms] .
  have r1: "R s1 s1'"
  proof (cases "token_type s = TOKEN_ID \<and> \<not> tokenIsKeyword ''option'' s")
    case True
    have n: "R (nextToken s) (nextToken s')"
      using in_stepD(3) [OF assms] .
    have nty: "token_type (nextToken s') = token_type (nextToken s)"
      using in_stepD(1) [OF assms(1) n] .
    show ?thesis
    proof (cases "token_type (nextToken s) = ch CHR ''=''")
      case eq: True
      then have "token_type (nextToken s) \<noteq> TOKEN_ID" "token_type (nextToken s') \<noteq> TOKEN_ID"
        using nty by (simp_all add: TOKEN_ID_def)
      then have "token_value (nextToken s) = token_value s"
        "token_value (nextToken s') = token_value s'"
        by (simp_all add: nextToken_value_kept)
      then have v: "token_value (nextToken s') = token_value (nextToken s)"
        using in_stepD(2) [OF assms] True by simp
      have "s1 = createProtobufTag kinds (token_value (nextToken s)) PK_ENUMERATOR (nextToken s)"
        using True eq by (simp add: s1_def Let_def)
      moreover have "s1' = createProtobufTag kinds' (token_value (nextToken s)) PK_ENUMERATOR (nextToken s')"
        using True eq ty kw nty v by (simp add: s1'_def Let_def)
      ultimately show ?thesis
        using in_stepD(4) [OF assms(1) n] by simp
    next
      case False
      then have "s1 = nextToken s" "s1' = nextToken s'"
        using True ty kw nty by (simp_all add: s1_def s1'_def Let_def)
      then show ?thesis
        using n by simp
    qed
  next
    case False
    have "s1 = s"
      unfolding s1_def using False by (rule if_not_P)
    moreover have "s1' = s'"
      unfolding s1'_def using False ty kw by (intro if_not_P) simp
    ultimately show ?thesis
      using assms(2) by simp
  qed
  have r2: "R s2 s2'"
    unfolding s2_def s2'_def using assms(1) r1 by (rule in_step_skipUntil)
  have "token_type s2' = token_type s2"
    using in_stepD(1) [OF assms(1) r2] .
  then show ?thesis
    using r2 in_stepD(3) [OF assms(1) r2] by (simp add: e e')
qed

lemma in_step_enumLoop:
  "in_step R kinds kinds' \<Longrightarrow> R s s' \<Longrightarrow> R (enumLoop kinds s) (enumLoop kinds' s')"
proof (induction kinds s arbitrary: s' rule: enumLoop.induct)
  case (1 kinds s)
  note st = "1.prems"(1) and r = "1.prems"(2)
  note ty = in_stepD(1) [OF st r]
  show ?case
  proof (cases "token_type s \<noteq> TOKEN_EOF \<and> token_type s \<noteq> ch CHR ''}''")
    case True
    then have True': "token_type s' \<noteq> TOKEN_EOF \<and> token_type s' \<noteq> ch CHR ''}''"
      using ty by simp
    have "R (enumLoop kinds (enumBody kinds s)) (enumLoop kinds' (enumBody kinds' s'))"
      using "1.IH" [OF True st in_step_enumBody [OF st r]] .
    then show ?thesis
      using enumLoop_step [OF True] enumLoop_step [OF True'] by simp
  next
    case False
    then have False': "\<not> (token_type s' \<noteq> TOKEN_EOF \<and> token_type s' \<noteq> ch CHR ''}'')"
      using ty by simp
    show ?thesis
      using enumLoop_stop [OF False] enumLoop_stop [OF False'] r by simp
  qed
qed


lemma in_step_parseEnumConstants:
  assumes "in_step R kinds kinds'" and "R s s'"
  shows "R (parseEnumConstants kinds s) (parseEnumConstants kinds' s')"
proof -
  have ty: "token_type s' = token_type s"
    using in_stepD(1) [OF assms] .
  have "R (enumLoop kinds (nextToken s)) (enumLoop kinds' (nextToken s'))"
    using assms(1) in_stepD(3) [OF assms] by (rule in_step_enumLoop)
  then show ?thesis
    using assms(2) ty by (simp add: parseEnumConstants_def)
qed

lemma skipFieldType_unfold:
  "skipFieldType s =
     (let s1 = (if token_type s = ch CHR ''.'' then nextToken s else s) in
      if token_type s1 \<noteq> TOKEN_ID then (False, s1)
      else if token_type (nextToken s1) = ch CHR ''.'' then skipFieldType (nextToken s1)
      else (True, nextToken s1))"
  by (subst skipFieldType.simps) (rule refl)

lemma in_step_skipFieldType:
  assumes "in_step R kinds kinds'"
  shows "R s s' \<Longrightarrow>
    fst (skipFieldType s') = fst (skipFieldType s) \<and>
    R (snd (skipFieldType s)) (snd (skipFieldType s'))"
proof (induction s arbitrary: s' rule: skipFieldType.induct)
  case (1 s)
  define s1 where "s1 = (if token_type s = ch CHR ''.'' then nextToken s else s)"
  define s1' where "s1' = (if token_type s' = ch CHR ''.'' then nextToken s' else s')"
  have ty: "token_type s' = token_type s"
    using in_stepD(1) [OF assms "1.prems"] .
  have r1: "R s1 s1'"
    using "1.prems" in_stepD(3) [OF assms "1.prems"] ty by (simp add: s1_def s1'_def)
  have ty1: "token_type s1' = token_type s1"
    using in_stepD(1) [OF assms r1] .
  have r2: "R (nextToken s1) (nextToken s1')"
    using in_stepD(3) [OF assms r1] .
  have ty2: "token_type (nextToken s1') = token_type (nextToken s1)"
    using in_stepD(1) [OF assms r2] .
  have u: "skipFieldType s =
      (if token_type s1 \<noteq> TOKEN_ID then (False, s1)
       else if token_type (nextToken s1) = ch CHR ''.'' then skipFieldType (nextToken s1)
       else (True, nextToken s1))"
    by (subst skipFieldType_unfold) (simp add: s1_def Let_def del: of_char_Char)
  have u': "skipFieldType s' =
      (if token_type s1 \<noteq> TOKEN_ID then (False, s1')
       else if token_type (nextToken s1) = ch CHR ''.'' then skipFieldType (nextToken s1')
       else (True, nextToken s1'))"
    by (subst skipFieldType_unfold) (simp add: s1'_def Let_def ty1 [symmetric] ty2 [symmetric] del: of_char_Char)
  consider (abort) "token_type s1 \<noteq> TOKEN_ID"
    | (again) "\<not> token_type s1 \<noteq> TOKEN_ID" "token_type (nextToken s1) = ch CHR ''.''"
    | (finished) "\<not> token_type s1 \<noteq> TOKEN_ID" "token_type (nextToken s1) \<noteq> ch CHR ''.''"
    by blast
  then show ?case
  proof cases
    case abort
    then show ?thesis
      using r1 by (simp add: u u')
  next
    case again
    show ?thesis
      using "1.IH" [OF s1_def again r2] again by (simp add: u u' del: of_char_Char)
  next
    case finished
    then show ?thesis
      using r2 by (simp add: u u' del: of_char_Char)
  qed
qed

lemma in_step_parseStatement:
  assumes "in_step R kinds kinds'" and "R s s'"
  shows "R (parseStatement kinds k s) (parseStatement kinds' k s')"
proof -
  obtain ok s1 where a: "(if k = PK_FIELD then skipFieldType (nextToken s) else (True, nextToken s)) = (ok, s1)"
    by (cases "if k = PK_FIELD then skipFieldType (nextToken s) else (True, nextToken s)")
  obtain ok' s1' where a': "(if k = PK_FIELD then skipFieldType (nextToken s') else (True, nextToken s')) = (ok', s1')"
    by (cases "if k = PK_FIELD then skipFieldType (nextToken s') else (True, nextToken s')")
  have n: "R (nextToken s) (nextToken s')"
    using in_stepD(3) [OF assms] .
  have "ok' = ok \<and> R s1 s1'"
  proof (cases "k = PK_FIELD")
    case True
    then show ?thesis
      using in_step_skipFieldType [OF assms(1) n] a a' by simp
  next
    case False
    then show ?thesis
      using n a a' by auto
  qed
  then have ok: "ok' = ok" and r1: "R s1 s1'"
    by simp_all
  have ty1: "token_type s1' = token_type s1"
    using in_stepD(1) [OF assms(1) r1] .
  define s2 where "s2 = nextToken (createProtobufTag kinds (token_value s1) k s1)"
  define s2' where "s2' = nextToken (createProtobufTag kinds' (token_value s1') k s1')"
  have p: "parseStatement kinds k s =
      (if \<not> ok then s1 else if token_type s1 \<noteq> TOKEN_ID then s1
       else if k = PK_ENUM then parseEnumConstants kinds s2 else s2)"
    by (simp add: parseStatement_def a s2_def Let_def)
  have p': "parseStatement kinds' k s' =
      (if \<not> ok then s1' else if token_type s1 \<noteq> TOKEN_ID then s1'
       else if k = PK_ENUM then parseEnumConstants kinds' s2' else s2')"
    by (simp add: parseStatement_def a' s2'_def Let_def ok ty1)
  show ?thesis
  proof (cases "\<not> ok \<or> token_type s1 \<noteq> TOKEN_ID")
    case True
    then show ?thesis
      using r1 by (auto simp: p p')
  next
    case False
    then have "token_value s1' = token_value s1"
      using in_stepD(2) [OF assms(1) r1] by simp
    then have "R (createProtobufTag kinds (token_value s1) k s1)
                 (createProtobufTag kinds' (token_value s1') k s1')"
      using in_stepD(4) [OF assms(1) r1] by simp
    then have r2: "R s2 s2'"
      unfolding s2_def s2'_def by (rule in_stepD(3) [OF assms(1)])
    show ?thesis
      using False r2 in_step_parseEnumConstants [OF assms(1) r2] by (simp add: p p')
  qed
qed

lemma if_in_step:
  "(c \<Longrightarrow> R a a') \<Longrightarrow> (\<not> c \<Longrightarrow> R b b') \<Longrightarrow> R (if c then a else b) (if c then a' else b')"
  by simp

lemma in_step_dispatch:
  assumes "in_step R kinds kinds'" and "R s s'"
  shows "R (dispatch kinds s) (dispatch kinds' s')"
  unfolding dispatch_def in_step_keyword [OF assms]
  by (intro if_in_step [where R = R] in_step_parseStatement [OF assms] assms(2))

lemma in_step_mainBody:
  assumes "in_step R kinds kinds'" and "R s s'"
  shows "R (mainBody kinds s) (mainBody kinds' s')"
proof -
  have "R (dispatch kinds s) (dispatch kinds' s')"
    using assms by (rule in_step_dispatch)
  then have "R (skipUntil '';{}'' (dispatch kinds s)) (skipUntil '';{}'' (dispatch kinds' s'))"
    by (rule in_step_skipUntil [OF assms(1)])
  then show ?thesis
    unfolding mainBody_def by (rule in_stepD(3) [OF assms(1)])
qed

lemma mainLoop_stop:
  "\<not> token_type s \<noteq> TOKEN_EOF \<Longrightarrow> mainLoop kinds s = s"
  by (subst mainLoop.simps) (rule if_not_P)

lemma mainLoop_step:
  "token_type s \<noteq> TOKEN_EOF \<Longrightarrow> mainLoop kinds s = mainLoop kinds (mainBody kinds s)"
  by (subst mainLoop.simps) (rule if_P)

lemma in_step_mainLoop:
  "in_step R kinds kinds' \<Longrightarrow> R s s' \<Longrightarrow> R (mainLoop kinds s) (mainLoop kinds' s')"
proof (induction kinds s arbitrary: s' rule: mainLoop.induct)
  case (1 kinds s)
  note st = "1.prems"(1) and r = "1.prems"(2)
  note ty = in_stepD(1) [OF st r]
  show ?case
  proof (cases "token_type s \<noteq> TOKEN_EOF")
    case True
    then have True': "token_type s' \<noteq> TOKEN_EOF"
      using ty by simp
    have "R (mainLoop kinds (mainBody kinds s)) (mainLoop kinds' (mainBody kinds' s'))"
      using "1.IH" [OF True st in_step_mainBody [OF st r]] .
    then show ?thesis
      using mainLoop_step [OF True] mainLoop_step [OF True'] by simp
  next
    case False
    then have False': "\<not> token_type s' \<noteq> TOKEN_EOF"
      using ty by simp
    show ?thesis
      using mainLoop_stop [OF False] mainLoop_stop [OF False'] r by simp
  qed
qed

subsection \<open>The text buffer between identifiers\<close>

lemma nextToken_value_run:
  "k \<le> n \<Longrightarrow> \<forall>j. k < j \<and> j \<le> n \<longrightarrow> token_type ((nextToken ^^ j) s) \<noteq> TOKEN_ID \<Longrightarrow>
   token_value ((nextToken ^^ n) s) = token_value ((nextToken ^^ k) s)"
proof (induction n)
  case 0
  then show ?case
    by simp
next
  case (Suc n)
  show ?case
  proof (cases "k = Suc n")
    case True
    then show ?thesis
      by simp
  next
    case False
    then have kn: "k \<le> n"
      using Suc.prems(1) by simp
    have "token_type (nextToken ((nextToken ^^ n) s)) \<noteq> TOKEN_ID"
      using Suc.prems(2) kn by (metis funpow.simps(2) o_apply le_imp_less_Suc order_refl)
    then have "token_value ((nextToken ^^ Suc n) s) = token_value ((nextToken ^^ n) s)"
      using nextToken_value_kept [of "(nextToken ^^ n) s"] by simp
    also have "\<dots> = token_value ((nextToken ^^ k) s)"
      using Suc.IH [OF kn] Suc.prems(2) by simp
    finally show ?thesis .
  qed
qed

text \<open>Claim C10. When \<open>nextToken\<close> produces a punctuation token or the end-of-input
  token, the text buffer \<open>token_value\<close> is left as it was; it is cleared and rewritten
  only when an identifier is produced, and then its new content does not depend on the
  old one. Hence after any run of non-identifier tokens the buffer still holds the text
  of the last identifier scanned before them, which is what the enum-constant emission
  reads when the current token is \<open>=\<close>.\<close>

theorem nextToken_value_unchanged_unless_identifier:
  "(token_type (nextToken s) \<noteq> TOKEN_ID \<longrightarrow> token_value (nextToken s) = token_value s) \<and>
   (token_type (nextToken s) = TOKEN_ID \<longrightarrow>
      token_value (nextToken (s\<lparr>token_value := v\<rparr>)) = token_value (nextToken s)) \<and>
   (k \<le> n \<and> token_type ((nextToken ^^ k) s) = TOKEN_ID \<and>
    (\<forall>j. k < j \<and> j \<le> n \<longrightarrow> token_type ((nextToken ^^ j) s) \<noteq> TOKEN_ID) \<longrightarrow>
      token_value ((nextToken ^^ n) s) = token_value ((nextToken ^^ k) s))"
proof (intro conjI impI)
  assume "token_type (nextToken s) \<noteq> TOKEN_ID"
  then show "token_value (nextToken s) = token_value s"
    by (rule nextToken_value_kept)
next
  assume "token_type (nextToken s) = TOKEN_ID"
  then show "token_value (nextToken (s\<lparr>token_value := v\<rparr>)) = token_value (nextToken s)"
    using nextToken_cong [of "s\<lparr>token_value := v\<rparr>" s] by simp
next
  assume "k \<le> n \<and> token_type ((nextToken ^^ k) s) = TOKEN_ID \<and>
    (\<forall>j. k < j \<and> j \<le> n \<longrightarrow> token_type ((nextToken ^^ j) s) \<noteq> TOKEN_ID)"
  then show "token_value ((nextToken ^^ n) s) = token_value ((nextToken ^^ k) s)"
    using nextToken_value_run [of k n s] by blast
qed

theorem nextToken_value_unchanged_unless_identifier_witness:
  "token_type (nextToken (nextToken (cppInit ''A = 0;'' initial))) \<noteq> TOKEN_ID \<and>
   token_value (nextToken (nextToken (cppInit ''A = 0;'' initial))) =
     token_value (nextToken (cppInit ''A = 0;'' initial)) \<and>
   token_type (nextToken (cppInit ''A = 0;'' initial)) = TOKEN_ID \<and>
   token_value (nextToken ((cppInit ''A = 0;'' initial)\<lparr>token_value := ''zz''\<rparr>)) =
     token_value (nextToken (cppInit ''A = 0;'' initial)) \<and>
   token_value ((nextToken ^^ 1) (nextToken (cppInit ''A = 0;'' initial))) = ''A''"
proof -
  let ?s = "nextToken (cppInit ''A = 0;'' initial)"
  have eq: "token_type (nextToken ?s) = ch CHR ''=''"
    by code_simp
  have ident: "token_type ?s = TOKEN_ID"
    by code_simp
  have val: "token_value ?s = ''A''"
    by code_simp
  have punct: "token_type (nextToken ?s) \<noteq> TOKEN_ID"
    using eq by (simp add: TOKEN_ID_def)
  have run: "(0::nat) \<le> 1 \<and> token_type ((nextToken ^^ 0) ?s) = TOKEN_ID \<and>
      (\<forall>j. 0 < j \<and> j \<le> 1 \<longrightarrow> token_type ((nextToken ^^ j) ?s) \<noteq> TOKEN_ID)"
  proof (intro conjI allI impI)
    fix j :: nat
    assume "0 < j \<and> j \<le> 1"
    then have "j = 1"
      by simp
    then show "token_type ((nextToken ^^ j) ?s) \<noteq> TOKEN_ID"
      using punct by simp
  qed (simp_all add: ident)
  show ?thesis
    using nextToken_value_unchanged_unless_identifier [of ?s "''zz''" 0 1]
      nextToken_value_unchanged_unless_identifier [of "cppInit ''A = 0;'' initial" "''zz''" 0 0]
      punct ident run val
    by simp
qed

subsection \<open>Pushback discipline\<close>

lemma unget_after_get_tail:
  "unget_after_get (c # cs) \<Longrightarrow> unget_after_get cs"
  by (cases c; cases cs) (auto split: cppCall.splits)

lemma unget_after_get_drop:
  "unget_after_get cs \<Longrightarrow> unget_after_get (drop k cs)"
proof (induction k arbitrary: cs)
  case 0
  then show ?case
    by simp
next
  case (Suc k)
  then show ?case
    by (cases cs) (auto dest: unget_after_get_tail)
qed

lemma unget_after_get_outstanding:
  "unget_after_get cs \<Longrightarrow>
   outstanding cs \<le> 1 \<and> (case cs of Getc # _ \<Rightarrow> outstanding cs = 0 | _ \<Rightarrow> True)"
proof (induction cs rule: unget_after_get.induct)
  case 1
  then show ?case
    by simp
next
  case (2 cs)
  then show ?case
    by auto
next
  case (3 cs)
  then show ?case
    by (cases cs) (auto split: cppCall.splits)
qed

lemma cppGetc_allows_unget:
  "cppGetc s = (c, s1) \<Longrightarrow> unget_after_get (calls s) \<Longrightarrow> unget_after_get (Ungetc # calls s1)"
  using cppGetc_frame(4) [of s c s1] by simp

lemma allows_unget_imp:
  "unget_after_get (Ungetc # cs) \<Longrightarrow> unget_after_get cs"
  by (rule unget_after_get_tail)

lemma identLoop_allows_unget:
  "identLoop c s = (c', s') \<Longrightarrow> unget_after_get (Ungetc # calls s) \<Longrightarrow>
   unget_after_get (Ungetc # calls s')"
proof (induction c s rule: identLoop.induct)
  case (1 c s)
  show ?case
  proof (cases "0 < c \<and> (isalnum c \<or> c = ch CHR ''_'')")
    case True
    obtain c1 s1 where g: "cppGetc (vStringPut c s) = (c1, s1)"
      by (cases "cppGetc (vStringPut c s)")
    have l: "identLoop c1 s1 = (c', s')"
      using "1.prems"(1) identLoop_step [OF True g] by simp
    have "unget_after_get (calls (vStringPut c s))"
      using allows_unget_imp [OF "1.prems"(2)] by (simp add: vStringPut_def)
    then have "unget_after_get (Ungetc # calls s1)"
      by (rule cppGetc_allows_unget [OF g])
    then show ?thesis
      using "1.IH" [OF True g [symmetric] l] by simp
  next
    case False
    then show ?thesis
      using "1.prems" identLoop_stop [OF False, of s] by simp
  qed
qed

lemma nextToken_unget_after_get:
  "unget_after_get (calls s) \<Longrightarrow> unget_after_get (calls (nextToken s))"
proof (induction s rule: nextToken.induct)
  case (1 s)
  obtain c s1 where g: "cppGetc s = (c, s1)"
    by (cases "cppGetc s")
  have a: "unget_after_get (Ungetc # calls s1)"
    using cppGetc_allows_unget [OF g "1.prems"] .
  have s1: "unget_after_get (calls s1)"
    using allows_unget_imp [OF a] .
  from g show ?case
  proof (cases rule: nextToken_cases)
    case eof
    then show ?thesis
      using s1 by simp
  next
    case punct
    then show ?thesis
      using s1 by simp
  next
    case (ident c' s2)
    have "unget_after_get (Ungetc # calls s2)"
      using identLoop_allows_unget [OF ident(3)] a by (simp add: vStringClear_def)
    then show ?thesis
      using ident(4) by (simp add: cppUngetc_def)
  next
    case other
    then show ?thesis
      using "1.IH" [OF g [symmetric] _ _ _ s1] by simp
  qed
qed

lemma in_step_unget_after_get:
  "in_step (\<lambda>s s'. s' = s \<and> unget_after_get (calls s)) kinds kinds"
  unfolding in_step_def
  by (auto simp: nextToken_unget_after_get createProtobufTag_def makeTagEntry_def)

lemma mainLoop_unget_after_get:
  assumes "unget_after_get (calls s)"
  shows "unget_after_get (calls (mainLoop kinds s))"
  using in_step_mainLoop [OF in_step_unget_after_get, of s s kinds] assms by simp

text \<open>Claim C9. At every point of a run at most one pushed-back character is outstanding:
  in the log of supplier calls of \<open>findProtobufTags\<close> every \<open>Ungetc\<close> comes directly after
  a \<open>Getc\<close>, so at least one fetch separates any two pushbacks (and precedes the first),
  and after every prefix of the run (a suffix of the log, which is kept latest first) the
  number of pushed-back characters not yet fetched again is at most one.\<close>

theorem pushback_never_exceeds_one:
  "unget_after_get (calls (findProtobufTags kinds file s)) \<and>
   (\<forall>k. outstanding (drop k (calls (findProtobufTags kinds file s))) \<le> 1)"
proof -
  have "unget_after_get (calls (nextToken ((cppInit file s)\<lparr>token_value := []\<rparr>)))"
    by (rule nextToken_unget_after_get) (simp add: cppInit_def)
  then have u: "unget_after_get (calls (findProtobufTags kinds file s))"
    unfolding findProtobufTags_def by (rule mainLoop_unget_after_get)
  show ?thesis
    using u unget_after_get_outstanding [OF unget_after_get_drop [OF u]] by simp
qed

subsection \<open>Independence of the prior state\<close>

lemma createProtobufTag_frame:
  "input (createProtobufTag kinds nm k s) = input s"
  "ungetch (createProtobufTag kinds nm k s) = ungetch s"
  "calls (createProtobufTag kinds nm k s) = calls s"
  "token_type (createProtobufTag kinds nm k s) = token_type s"
  "token_value (createProtobufTag kinds nm k s) = token_value s"
  by (simp_all add: createProtobufTag_def makeTagEntry_def)

lemma resumes_nextToken:
  assumes "input s' = input s" and "ungetch s' = ungetch s" and "tags s' = p @ tags s"
  shows "resumes p (nextToken s) (nextToken s')"
  using nextToken_cong [OF assms(1,2)] assms(3) by (simp add: resumes_def)

lemma in_step_resumes:
  "in_step (resumes p) kinds kinds"
  unfolding in_step_def
proof (intro allI impI conjI)
  fix s s'
  assume r: "resumes p s s'"
  show "token_type s' = token_type s"
    using r by (simp add: resumes_def)
  show "token_value s' = token_value s" if "token_type s = TOKEN_ID"
    using r that by (simp add: resumes_def)
  show "resumes p (nextToken s) (nextToken s')"
    using r by (intro resumes_nextToken) (simp_all add: resumes_def)
  show "resumes p (createProtobufTag kinds nm k s) (createProtobufTag kinds nm k s')" for nm k
    using r by (simp add: resumes_def createProtobufTag_frame)
      (simp add: createProtobufTag_def makeTagEntry_def)
qed

lemma findProtobufTags_resumes:
  "resumes (tags s) (findProtobufTags kinds file initial) (findProtobufTags kinds file s)"
  unfolding findProtobufTags_def
proof (rule in_step_mainLoop [OF in_step_resumes])
  show "resumes (tags s) (nextToken ((cppInit file initial)\<lparr>token_value := []\<rparr>))
     (nextToken ((cppInit file s)\<lparr>token_value := []\<rparr>))"
    by (rule resumes_nextToken) (simp_all add: cppInit_def initial_def)
qed

text \<open>Claim C7. The recognizer is deterministic, also with respect to what an earlier run
  left in the static token: from any prior state \<open>s\<close> the run on \<open>file\<close> appends to the tags
  already made exactly the sequence that the run from the fresh state emits; so two runs
  on the same characters, from whatever prior states, emit the same sequence in the same
  order, and running again after a first run emits that sequence once more.\<close>

theorem findProtobufTags_deterministic:
  "tags (findProtobufTags kinds file s) = tags s @ tags (findProtobufTags kinds file initial) \<and>
   drop (length (tags s)) (tags (findProtobufTags kinds file s)) =
     drop (length (tags s')) (tags (findProtobufTags kinds file s')) \<and>
   tags (findProtobufTags kinds file (findProtobufTags kinds file initial)) =
     tags (findProtobufTags kinds file initial) @ tags (findProtobufTags kinds file initial)"
proof -
  have t: "tags (findProtobufTags kinds file x) = tags x @ tags (findProtobufTags kinds file initial)"
    for x
    using findProtobufTags_resumes [of x kinds "file"] by (simp add: resumes_def)
  show ?thesis
    using t [of s] t [of s'] t [of "findProtobufTags kinds file initial"] by simp
qed

subsection \<open>Disabled kinds\<close>

lemma kindEnabled_tag:
  "kindEnabled en \<lparr>tagName = nm, kindName = name (ProtobufKinds k), kind = letter (ProtobufKinds k)\<rparr> = en k"
  by (cases k) (auto simp: kindEnabled_def allKinds_def)

lemma setEnabled_ProtobufKinds:
  "setEnabled (\<lambda>k. enabled (ProtobufKinds k)) = ProtobufKinds"
proof
  fix k
  show "setEnabled (\<lambda>k. enabled (ProtobufKinds k)) k = ProtobufKinds k"
    by (cases k) (simp_all add: setEnabled_def)
qed

lemma suppressed_nextToken:
  assumes "suppressed en s s'"
  shows "suppressed en (nextToken s) (nextToken s')"
proof -
  have i: "input s' = input s" and u: "ungetch s' = ungetch s" and c: "calls s' = calls s"
    and v: "token_value s' = token_value s"
    using assms by (simp_all add: suppressed_def)
  note cg = nextToken_cong [OF i u]
  have ty: "token_type (nextToken s') = token_type (nextToken s)"
    using cg by simp
  have "token_value (nextToken s') = token_value (nextToken s)"
  proof (cases "token_type (nextToken s) = TOKEN_ID")
    case True
    then show ?thesis
      using cg by simp
  next
    case False
    then show ?thesis
      using nextToken_value_kept [of s] nextToken_value_kept [of s'] ty v by simp
  qed
  then show ?thesis
    using cg c assms by (simp add: suppressed_def)
qed

lemma in_step_suppressed:
  "in_step (suppressed en) (setEnabled (\<lambda>k. True)) (setEnabled en)"
  unfolding in_step_def
proof (intro allI impI conjI)
  fix s s'
  assume r: "suppressed en s s'"
  show "token_type s' = token_type s"
    using r by (simp add: suppressed_def)
  show "token_value s' = token_value s"
    using r by (simp add: suppressed_def)
  show "suppressed en (nextToken s) (nextToken s')"
    using r by (rule suppressed_nextToken)
  show "suppressed en (createProtobufTag (setEnabled (\<lambda>k. True)) nm k s)
          (createProtobufTag (setEnabled en) nm k s')" for nm k
    using r kindEnabled_tag [of en nm k]
    by (simp add: suppressed_def createProtobufTag_def makeTagEntry_def setEnabled_def)
qed

lemma findProtobufTags_suppressed:
  "suppressed en (findProtobufTags (setEnabled (\<lambda>k. True)) file initial)
     (findProtobufTags (setEnabled en) file initial)"
  unfolding findProtobufTags_def
proof (rule in_step_mainLoop [OF in_step_suppressed])
  show "suppressed en (nextToken ((cppInit file initial)\<lparr>token_value := []\<rparr>))
     (nextToken ((cppInit file initial)\<lparr>token_value := []\<rparr>))"
    by (rule suppressed_nextToken) (simp add: suppressed_def cppInit_def initial_def)
qed

lemma rpc_alone:
  "tags (findProtobufTags ProtobufKinds ''rpc GetUser (Req) returns (Resp);'' initial) = []"
  by code_simp

lemma rpc_in_service:
  "tags (findProtobufTags ProtobufKinds
      ''service ServiceName { rpc GetUser (Req) returns (Resp); }'' initial) =
   [\<lparr>tagName = ''ServiceName'', kindName = ''service'', kind = CHR ''s''\<rparr>]"
  by code_simp

lemma rpc_in_service_enabled:
  "tags (findProtobufTags (setEnabled (\<lambda>k. True))
      ''service ServiceName { rpc GetUser (Req) returns (Resp); }'' initial) =
   [\<lparr>tagName = ''ServiceName'', kindName = ''service'', kind = CHR ''s''\<rparr>,
    \<lparr>tagName = ''GetUser'', kindName = ''rpc'', kind = CHR ''r''\<rparr>]"
  by code_simp

lemma filter_kindEnabled_other:
  assumes "\<forall>k. k \<noteq> k0 \<longrightarrow> en k = en' k"
  shows "filter (\<lambda>t. kind t \<noteq> letter (ProtobufKinds k0)) (filter (kindEnabled en) ts) =
         filter (\<lambda>t. kind t \<noteq> letter (ProtobufKinds k0)) (filter (kindEnabled en') ts)"
proof -
  have "kind t \<noteq> letter (ProtobufKinds k0) \<Longrightarrow> kindEnabled en t = kindEnabled en' t" for t
    using assms by (cases k0) (auto simp: kindEnabled_def allKinds_def)
  then show ?thesis
    by (induction ts) auto
qed

text \<open>Claim C4. A disabled kind is suppressed at the emission boundary and nowhere else.
  Under the source's table with the \<open>enabled\<close> flags set to \<open>en\<close>, the tags of a run are
  those of the run with every kind enabled, filtered by \<open>en\<close>; the characters consumed,
  the supplier calls and the final token are the same; and enabling one more kind \<open>k0\<close>
  changes nothing among the tags of the other kinds. The source's table disables only
  \<open>rpc\<close>: there \<^verbatim>\<open>rpc GetUser (Req) returns (Resp);\<close> makes no tag, and inside
  \<^verbatim>\<open>service ServiceName { ... }\<close> the service tag is still made, the rpc tag only once
  \<open>rpc\<close> is enabled.\<close>

theorem disabled_kind_suppressed_only:
  "tags (findProtobufTags (setEnabled en) file initial) =
     filter (kindEnabled en) (tags (findProtobufTags (setEnabled (\<lambda>k. True)) file initial)) \<and>
   input (findProtobufTags (setEnabled en) file initial) =
     input (findProtobufTags (setEnabled (\<lambda>k. True)) file initial) \<and>
   calls (findProtobufTags (setEnabled en) file initial) =
     calls (findProtobufTags (setEnabled (\<lambda>k. True)) file initial) \<and>
   token_type (findProtobufTags (setEnabled en) file initial) =
     token_type (findProtobufTags (setEnabled (\<lambda>k. True)) file initial) \<and>
   token_value (findProtobufTags (setEnabled en) file initial) =
     token_value (findProtobufTags (setEnabled (\<lambda>k. True)) file initial) \<and>
   filter (\<lambda>t. kind t \<noteq> letter (ProtobufKinds k0))
       (tags (findProtobufTags (setEnabled en) file initial)) =
     filter (\<lambda>t. kind t \<noteq> letter (ProtobufKinds k0))
       (tags (findProtobufTags (setEnabled (en(k0 := True))) file initial)) \<and>
   setEnabled (\<lambda>k. k \<noteq> PK_RPC) = ProtobufKinds \<and>
   tags (findProtobufTags ProtobufKinds ''rpc GetUser (Req) returns (Resp);'' initial) = [] \<and>
   tags (findProtobufTags ProtobufKinds
      ''service ServiceName { rpc GetUser (Req) returns (Resp); }'' initial) =
     [\<lparr>tagName = ''ServiceName'', kindName = ''service'', kind = CHR ''s''\<rparr>] \<and>
   tags (findProtobufTags (setEnabled (\<lambda>k. True))
      ''service ServiceName { rpc GetUser (Req) returns (Resp); }'' initial) =
     [\<lparr>tagName = ''ServiceName'', kindName = ''service'', kind = CHR ''s''\<rparr>,
      \<lparr>tagName = ''GetUser'', kindName = ''rpc'', kind = CHR ''r''\<rparr>]"
proof -
  have f: "tags (findProtobufTags (setEnabled e) file initial) =
     filter (kindEnabled e) (tags (findProtobufTags (setEnabled (\<lambda>k. True)) file initial))" for e
    using findProtobufTags_suppressed [of e "file"] by (simp add: suppressed_def)
  have other: "filter (\<lambda>t. kind t \<noteq> letter (ProtobufKinds k0))
       (tags (findProtobufTags (setEnabled en) file initial)) =
     filter (\<lambda>t. kind t \<noteq> letter (ProtobufKinds k0))
       (tags (findProtobufTags (setEnabled (en(k0 := True))) file initial))"
    unfolding f [of en] f [of "en(k0 := True)"]
    by (rule filter_kindEnabled_other) simp
  have "(\<lambda>k. k \<noteq> PK_RPC) = (\<lambda>k. enabled (ProtobufKinds k))"
  proof
    fix k
    show "(k \<noteq> PK_RPC) = enabled (ProtobufKinds k)"
      by (cases k) simp_all
  qed
  then have table: "setEnabled (\<lambda>k. k \<noteq> PK_RPC) = ProtobufKinds"
    by (simp add: setEnabled_ProtobufKinds)
  show ?thesis
    using findProtobufTags_suppressed [of en "file"] other table
      rpc_alone rpc_in_service rpc_in_service_enabled
    by (simp add: suppressed_def)
qed

subsection \<open>Termination\<close>

lemma mainLoop_EOF:
  "token_type (mainLoop kinds s) = TOKEN_EOF"
proof (induction kinds s rule: mainLoop.induct)
  case (1 kinds s)
  show ?case
  proof (cases "token_type s \<noteq> TOKEN_EOF")
    case True
    then show ?thesis
      using "1.IH" [OF True] mainLoop_step [OF True, of kinds] by simp
  next
    case False
    then show ?thesis
      using mainLoop_stop [OF False, of kinds] by simp
  qed
qed

lemma mainLoop_iterations:
  "\<exists>n\<le>tokens_left s. mainLoop kinds s = (mainBody kinds ^^ n) s"
proof (induction kinds s rule: mainLoop.induct)
  case (1 kinds s)
  show ?case
  proof (cases "token_type s \<noteq> TOKEN_EOF")
    case True
    obtain n where n: "n \<le> tokens_left (mainBody kinds s)"
      and m: "mainLoop kinds (mainBody kinds s) = (mainBody kinds ^^ n) (mainBody kinds s)"
      using "1.IH" [OF True] by blast
    have "Suc n \<le> tokens_left s"
      using n mainBody_tokens_left [of kinds s] True by (simp add: tokens_left_def)
    moreover have "mainLoop kinds s = (mainBody kinds ^^ Suc n) s"
      using mainLoop_step [OF True, of kinds] m by (simp add: funpow_swap1)
    ultimately show ?thesis
      by blast
  next
    case False
    then have "mainLoop kinds s = (mainBody kinds ^^ 0) s"
      using mainLoop_stop [OF False, of kinds] by simp
    then show ?thesis
      by blast
  qed
qed

text \<open>Claim C8. For every finite character sequence the run ends, with the end-of-input
  token as the current token: the loop of \<open>findProtobufTags\<close> is left after at most
  \<open>length file\<close> passes, and every pass through the top-level loop, every step of
  \<open>skipUntil\<close>, every pass through the loop of \<open>parseEnumConstants\<close> and every pass
  through the loop of \<open>parseStatement\<close> that skips a field's type strictly lowers
  \<open>tokens_left\<close>, because a call of \<open>nextToken\<close> that does not return the end-of-input
  token has consumed at least one character.\<close>

theorem findProtobufTags_terminates:
  "token_type (findProtobufTags kinds file s) = TOKEN_EOF \<and>
   (\<exists>n\<le>length file. findProtobufTags kinds file s =
      (mainBody kinds ^^ n) (nextToken ((cppInit file s)\<lparr>token_value := []\<rparr>))) \<and>
   (token_type t \<noteq> TOKEN_EOF \<longrightarrow> tokens_left (mainBody kinds t) < tokens_left t) \<and>
   (token_type t \<noteq> TOKEN_EOF \<and> \<not> strchr p (token_type t) \<longrightarrow>
      tokens_left (nextToken t) < tokens_left t) \<and>
   (token_type t \<noteq> TOKEN_EOF \<and> token_type t \<noteq> ch CHR ''}'' \<longrightarrow>
      tokens_left (enumBody kinds t) < tokens_left t) \<and>
   (token_type (if token_type t = ch CHR ''.'' then nextToken t else t) = TOKEN_ID \<and>
    token_type (nextToken (if token_type t = ch CHR ''.'' then nextToken t else t)) = ch CHR ''.'' \<longrightarrow>
      tokens_left (nextToken (if token_type t = ch CHR ''.'' then nextToken t else t)) <
        tokens_left t) \<and>
   (token_type (nextToken t) \<noteq> TOKEN_EOF \<longrightarrow> chars_left (nextToken t) < chars_left t)"
proof (intro conjI impI)
  show "token_type (findProtobufTags kinds file s) = TOKEN_EOF"
    unfolding findProtobufTags_def by (rule mainLoop_EOF)
next
  let ?s0 = "nextToken ((cppInit file s)\<lparr>token_value := []\<rparr>)"
  obtain n where n: "n \<le> tokens_left ?s0" and m: "mainLoop kinds ?s0 = (mainBody kinds ^^ n) ?s0"
    using mainLoop_iterations [of ?s0 kinds] by blast
  have "tokens_left ?s0 \<le> chars_left ((cppInit file s)\<lparr>token_value := []\<rparr>)"
    by (rule nextToken_tokens_left)
  also have "\<dots> = length file"
    by (simp add: chars_left_def cppInit_def)
  finally have "n \<le> length file"
    using n by simp
  then show "\<exists>n\<le>length file. findProtobufTags kinds file s = (mainBody kinds ^^ n) ?s0"
    using m unfolding findProtobufTags_def by blast
next
  assume "token_type t \<noteq> TOKEN_EOF"
  then show "tokens_left (mainBody kinds t) < tokens_left t"
    using mainBody_tokens_left [of kinds t] by (simp add: tokens_left_def)
next
  assume "token_type t \<noteq> TOKEN_EOF \<and> \<not> strchr p (token_type t)"
  then show "tokens_left (nextToken t) < tokens_left t"
    using nextToken_tokens_left [of t] by (simp add: tokens_left_def)
next
  assume a: "token_type t \<noteq> TOKEN_EOF \<and> token_type t \<noteq> ch CHR ''}''"
  then show "tokens_left (enumBody kinds t) < tokens_left t"
    using enumBody_tokens_left [OF a, of kinds] by (simp add: tokens_left_def)
next
  assume "token_type (if token_type t = ch CHR ''.'' then nextToken t else t) = TOKEN_ID \<and>
    token_type (nextToken (if token_type t = ch CHR ''.'' then nextToken t else t)) = ch CHR ''.''"
  then show "tokens_left (nextToken (if token_type t = ch CHR ''.'' then nextToken t else t)) <
        tokens_left t"
    using field_type_progress [OF refl, of t] by blast
next
  assume "token_type (nextToken t) \<noteq> TOKEN_EOF"
  then show "chars_left (nextToken t) < chars_left t"
    using nextToken_tokens_left [of t] by (simp add: tokens_left_def)
qed

theorem findProtobufTags_terminates_witness:
  "tokens_left (mainBody ProtobufKinds (nextToken (cppInit ''message Foo { }'' initial))) <
     tokens_left (nextToken (cppInit ''message Foo { }'' initial)) \<and>
   tokens_left (nextToken (nextToken (cppInit ''message Foo { }'' initial))) <
     tokens_left (nextToken (cppInit ''message Foo { }'' initial)) \<and>
   tokens_left (enumBody ProtobufKinds (nextToken (cppInit ''message Foo { }'' initial))) <
     tokens_left (nextToken (cppInit ''message Foo { }'' initial)) \<and>
   chars_left (nextToken (cppInit ''message Foo { }'' initial)) <
     chars_left (cppInit ''message Foo { }'' initial) \<and>
   tokens_left (nextToken (nextToken (cppInit ''foo.Bar x'' initial))) <
     tokens_left (nextToken (cppInit ''foo.Bar x'' initial))"
proof -
  let ?t = "nextToken (cppInit ''message Foo { }'' initial)"
  let ?u = "nextToken (cppInit ''foo.Bar x'' initial)"
  have ty: "token_type ?t = TOKEN_ID"
    by code_simp
  have u: "token_type ?u = TOKEN_ID" "token_type (nextToken ?u) = ch CHR ''.''"
    by code_simp+
  have nodot: "(if token_type ?u = ch CHR ''.'' then nextToken ?u else ?u) = ?u"
    by (simp add: u TOKEN_ID_def)
  have field: "tokens_left (nextToken ?u) < tokens_left ?u"
    using findProtobufTags_terminates [of ProtobufKinds "''foo.Bar x''" initial ?u "'';{}''"] u
    unfolding nodot by simp
  have h: "token_type ?t \<noteq> TOKEN_EOF" "\<not> strchr '';{}'' (token_type ?t)"
    "token_type ?t \<noteq> ch CHR ''}''"
    by (simp_all add: ty TOKEN_ID_def TOKEN_EOF_def strchr_def)
  show ?thesis
    using findProtobufTags_terminates [of ProtobufKinds "''message Foo { }''" initial ?t "'';{}''"]
      findProtobufTags_terminates [of ProtobufKinds "''message Foo { }''" initial
        "cppInit ''message Foo { }'' initial" "'';{}''"] h field
    unfolding nodot by simp
qed

subsection \<open>Where tags are made\<close>

lemma skipUntil_tags [simp]:
  "tags (skipUntil p s) = tags s"
proof (induction p s rule: skipUntil.induct)
  case (1 p s)
  show ?case
  proof (cases "token_type s \<noteq> TOKEN_EOF \<and> \<not> strchr p (token_type s)")
    case True
    then show ?thesis
      using "1.IH" [OF True] skipUntil_step [OF True] by simp
  next
    case False
    then show ?thesis
      using skipUntil_stop [OF False] by simp
  qed
qed

lemma skipFieldType_cases [case_names abort again finished]:
  assumes "\<And>s1. s1 = (if token_type s = ch CHR ''.'' then nextToken s else s) \<Longrightarrow>
             token_type s1 \<noteq> TOKEN_ID \<Longrightarrow> skipFieldType s = (False, s1) \<Longrightarrow> P"
    and "\<And>s1. s1 = (if token_type s = ch CHR ''.'' then nextToken s else s) \<Longrightarrow>
             \<not> token_type s1 \<noteq> TOKEN_ID \<Longrightarrow> token_type (nextToken s1) = ch CHR ''.'' \<Longrightarrow>
             skipFieldType s = skipFieldType (nextToken s1) \<Longrightarrow> P"
    and "\<And>s1. s1 = (if token_type s = ch CHR ''.'' then nextToken s else s) \<Longrightarrow>
             \<not> token_type s1 \<noteq> TOKEN_ID \<Longrightarrow> token_type (nextToken s1) \<noteq> ch CHR ''.'' \<Longrightarrow>
             skipFieldType s = (True, nextToken s1) \<Longrightarrow> P"
  shows P
proof -
  define s1 where "s1 = (if token_type s = ch CHR ''.'' then nextToken s else s)"
  have u: "skipFieldType s =
      (if token_type s1 \<noteq> TOKEN_ID then (False, s1)
       else if token_type (nextToken s1) = ch CHR ''.'' then skipFieldType (nextToken s1)
       else (True, nextToken s1))"
    by (subst skipFieldType_unfold) (simp add: s1_def Let_def del: of_char_Char)
  consider (abort) "token_type s1 \<noteq> TOKEN_ID"
    | (again) "\<not> token_type s1 \<noteq> TOKEN_ID" "token_type (nextToken s1) = ch CHR ''.''"
    | (finished) "\<not> token_type s1 \<noteq> TOKEN_ID" "token_type (nextToken s1) \<noteq> ch CHR ''.''"
    by blast
  then show P
  proof cases
    case abort
    then show ?thesis
      using assms(1) [OF s1_def] u by simp
  next
    case again
    then show ?thesis
      using assms(2) [OF s1_def] u by (simp del: of_char_Char)
  next
    case finished
    then show ?thesis
      using assms(3) [OF s1_def] u by (simp del: of_char_Char)
  qed
qed

lemma skipFieldType_tags [simp]:
  "tags (snd (skipFieldType s)) = tags s"
proof (induction s rule: skipFieldType.induct)
  case (1 s)
  show ?case
  proof (cases s rule: skipFieldType_cases)
    case (abort s1)
    then show ?thesis
      by simp
  next
    case (again s1)
    then show ?thesis
      using "1.IH" [OF again(1,2,3)] by simp
  next
    case (finished s1)
    then show ?thesis
      by simp
  qed
qed

lemma createProtobufTag_tags:
  "tags (createProtobufTag kinds nm k s) =
     tags s @ (if enabled (kinds k)
               then [\<lparr>tagName = nm, kindName = name (kinds k), kind = letter (kinds k)\<rparr>]
               else [])"
  by (simp add: createProtobufTag_def makeTagEntry_def)

lemma enumBody_tags:
  "tags (enumBody kinds s) =
     tags s @
       (if token_type s = TOKEN_ID \<and> \<not> tokenIsKeyword ''option'' s \<and>
           token_type (nextToken s) = ch CHR ''='' \<and> enabled (kinds PK_ENUMERATOR)
        then [\<lparr>tagName = token_value s, kindName = name (kinds PK_ENUMERATOR),
               kind = letter (kinds PK_ENUMERATOR)\<rparr>]
        else [])"
proof -
  define s1 where "s1 = (if token_type s = TOKEN_ID \<and> \<not> tokenIsKeyword ''option'' s then
                  (let s' = nextToken s in
                   if token_type s' = ch CHR ''=''
                   then createProtobufTag kinds (token_value s') PK_ENUMERATOR s'
                   else s')
                else s)"
  define s2 where "s2 = skipUntil '';}'' s1"
  have e: "enumBody kinds s = (if token_type s2 = ch CHR '';'' then nextToken s2 else s2)"
    by (simp add: enumBody_def s1_def s2_def Let_def del: of_char_Char)
  have t: "tags (enumBody kinds s) = tags s1"
    by (simp add: e s2_def)
  show ?thesis
  proof (cases "token_type s = TOKEN_ID \<and> \<not> tokenIsKeyword ''option'' s")
    case True
    show ?thesis
    proof (cases "token_type (nextToken s) = ch CHR ''=''")
      case eq: True
      then have "token_type (nextToken s) \<noteq> TOKEN_ID"
        by (simp add: TOKEN_ID_def)
      then have v: "token_value (nextToken s) = token_value s"
        by (rule nextToken_value_kept)
      have "s1 = createProtobufTag kinds (token_value s) PK_ENUMERATOR (nextToken s)"
        using True eq v by (simp add: s1_def Let_def)
      then show ?thesis
        using True eq by (simp add: t createProtobufTag_tags)
    next
      case False
      then have "s1 = nextToken s"
        using True by (simp add: s1_def Let_def)
      then show ?thesis
        using True False by (simp add: t)
    qed
  next
    case False
    have "s1 = s"
      unfolding s1_def using False by (rule if_not_P)
    then show ?thesis
      using False by (auto simp: t)
  qed
qed

lemma enum_Color:
  "tags (findProtobufTags ProtobufKinds ''enum Color { RED = 0; GREEN = 1; }'' initial) =
     [\<lparr>tagName = ''Color'', kindName = ''enum'', kind = CHR ''g''\<rparr>,
      \<lparr>tagName = ''RED'', kindName = ''enumerator'', kind = CHR ''e''\<rparr>,
      \<lparr>tagName = ''GREEN'', kindName = ''enumerator'', kind = CHR ''e''\<rparr>]"
  by code_simp

lemma enum_option:
  "tags (findProtobufTags ProtobufKinds ''enum E { option allow_alias = true; A = 0; }'' initial) =
     [\<lparr>tagName = ''E'', kindName = ''enum'', kind = CHR ''g''\<rparr>,
      \<lparr>tagName = ''A'', kindName = ''enumerator'', kind = CHR ''e''\<rparr>]"
  by code_simp

subsection \<open>Enum constants\<close>

text \<open>Claim C1. At the head of the loop of \<open>parseEnumConstants\<close>: when the current token is
  an identifier other than \<open>option\<close> and the next token is \<open>=\<close>, one pass makes exactly
  one tag, of kind enumerator (when that kind is enabled), named by that identifier; a
  pass that starts at the identifier \<open>option\<close> makes none, and so does a pass whose next
  token is not \<open>=\<close>. The run on \<^verbatim>\<open>enum Color { RED = 0; GREEN = 1; }\<close> makes the
  enumerator tags RED and GREEN (after the enum tag Color), the run on
  \<^verbatim>\<open>enum E { option allow_alias = true; A = 0; }\<close> only the enumerator tag A (after the
  enum tag E).\<close>

theorem enum_constants_emitted:
  "(token_type s = TOKEN_ID \<and> token_value s \<noteq> ''option'' \<and>
    token_type (nextToken s) = ch CHR ''='' \<and> enabled (kinds PK_ENUMERATOR) \<longrightarrow>
      tags (enumBody kinds s) =
        tags s @ [\<lparr>tagName = token_value s, kindName = name (kinds PK_ENUMERATOR),
                   kind = letter (kinds PK_ENUMERATOR)\<rparr>]) \<and>
   (token_type s = TOKEN_ID \<and> token_value s = ''option'' \<longrightarrow>
      tags (enumBody kinds s) = tags s) \<and>
   (token_type (nextToken s) \<noteq> ch CHR ''='' \<longrightarrow> tags (enumBody kinds s) = tags s) \<and>
   tags (findProtobufTags ProtobufKinds ''enum Color { RED = 0; GREEN = 1; }'' initial) =
     [\<lparr>tagName = ''Color'', kindName = ''enum'', kind = CHR ''g''\<rparr>,
      \<lparr>tagName = ''RED'', kindName = ''enumerator'', kind = CHR ''e''\<rparr>,
      \<lparr>tagName = ''GREEN'', kindName = ''enumerator'', kind = CHR ''e''\<rparr>] \<and>
   tags (findProtobufTags ProtobufKinds ''enum E { option allow_alias = true; A = 0; }'' initial) =
     [\<lparr>tagName = ''E'', kindName = ''enum'', kind = CHR ''g''\<rparr>,
      \<lparr>tagName = ''A'', kindName = ''enumerator'', kind = CHR ''e''\<rparr>]"
  using enum_Color enum_option
  by (simp add: enumBody_tags tokenIsKeyword_def)

theorem enum_constants_emitted_witness:
  "tags (enumBody ProtobufKinds (nextToken (cppInit ''RED = 0;'' initial))) =
     [\<lparr>tagName = ''RED'', kindName = ''enumerator'', kind = CHR ''e''\<rparr>] \<and>
   tags (enumBody ProtobufKinds (nextToken (cppInit ''option allow_alias = true;'' initial))) = []"
proof -
  let ?s = "nextToken (cppInit ''RED = 0;'' initial)"
  let ?t = "nextToken (cppInit ''option allow_alias = true;'' initial)"
  have s: "token_type ?s = TOKEN_ID" "token_value ?s = ''RED''"
    "token_type (nextToken ?s) = ch CHR ''=''" "tags ?s = []"
    by code_simp+
  have t: "token_type ?t = TOKEN_ID" "token_value ?t = ''option''" "tags ?t = []"
    by code_simp+
  show ?thesis
    using enum_constants_emitted [of ?s ProtobufKinds] enum_constants_emitted [of ?t ProtobufKinds]
      s t
    by simp
qed

subsection \<open>Statements without a name\<close>

lemma parseStatement_no_name:
  assumes "token_type (nextToken s) \<noteq> TOKEN_ID"
    and "k = PK_FIELD \<Longrightarrow> token_type (nextToken s) \<noteq> ch CHR ''.''"
  shows "parseStatement kinds k s = nextToken s"
proof (cases "k = PK_FIELD")
  case True
  have "skipFieldType (nextToken s) = (False, nextToken s)"
  proof (cases "nextToken s" rule: skipFieldType_cases)
    case (abort s1)
    then show ?thesis
      using assms(2) [OF True] by simp
  next
    case (again s1)
    then show ?thesis
      using assms True by simp
  next
    case (finished s1)
    then show ?thesis
      using assms True by simp
  qed
  then show ?thesis
    using True by (simp add: parseStatement_def)
next
  case False
  then show ?thesis
    using assms(1) by (simp add: parseStatement_def)
qed

lemma message_eof:
  "tags (findProtobufTags (setEnabled (\<lambda>k. True)) ''message'' initial) = [] \<and>
   token_type (findProtobufTags (setEnabled (\<lambda>k. True)) ''message'' initial) = TOKEN_EOF \<and>
   input (findProtobufTags (setEnabled (\<lambda>k. True)) ''message'' initial) = []"
  by code_simp

text \<open>Claim C6. When the token after a statement keyword is not an identifier (for a
  field: neither an identifier nor the dot that may start its type), \<open>parseStatement\<close>
  returns right after fetching that token, with no tag made. The run on the input
  \<^verbatim>\<open>message\<close> alone makes no tag under any setting of the enabled flags and ends at the
  end of the input with the end-of-input token.\<close>

theorem missing_name_no_tag:
  "(token_type (nextToken s) \<noteq> TOKEN_ID \<and>
    (if k = PK_FIELD then token_type (nextToken s) \<noteq> ch CHR ''.'' else True) \<longrightarrow>
      parseStatement kinds k s = nextToken s \<and> tags (parseStatement kinds k s) = tags s) \<and>
   tags (findProtobufTags (setEnabled en) ''message'' initial) = [] \<and>
   token_type (findProtobufTags (setEnabled en) ''message'' initial) = TOKEN_EOF \<and>
   input (findProtobufTags (setEnabled en) ''message'' initial) = []"
proof (intro conjI impI)
  assume a: "token_type (nextToken s) \<noteq> TOKEN_ID \<and>
    (if k = PK_FIELD then token_type (nextToken s) \<noteq> ch CHR ''.'' else True)"
  then have "token_type (nextToken s) \<noteq> TOKEN_ID"
    and "k = PK_FIELD \<Longrightarrow> token_type (nextToken s) \<noteq> ch CHR ''.''"
    by simp_all
  then show p: "parseStatement kinds k s = nextToken s"
    by (rule parseStatement_no_name)
  show "tags (parseStatement kinds k s) = tags s"
    by (simp add: p)
next
  note sup = findProtobufTags_suppressed [of en "''message''"]
  show "tags (findProtobufTags (setEnabled en) ''message'' initial) = []"
    using sup message_eof by (simp add: suppressed_def)
  show "token_type (findProtobufTags (setEnabled en) ''message'' initial) = TOKEN_EOF"
    using sup message_eof by (simp add: suppressed_def)
  show "input (findProtobufTags (setEnabled en) ''message'' initial) = []"
    using sup message_eof by (simp add: suppressed_def)
qed

theorem missing_name_no_tag_witness:
  "parseStatement ProtobufKinds PK_MESSAGE (nextToken (cppInit ''message'' initial)) =
     nextToken (nextToken (cppInit ''message'' initial)) \<and>
   tags (parseStatement ProtobufKinds PK_FIELD (nextToken (cppInit ''optional = 3;'' initial))) = []"
proof -
  let ?s = "nextToken (cppInit ''message'' initial)"
  let ?t = "nextToken (cppInit ''optional = 3;'' initial)"
  have s: "token_type (nextToken ?s) = TOKEN_EOF"
    by code_simp
  have t: "token_type (nextToken ?t) = ch CHR ''=''" "tags ?t = []"
    by code_simp+
  show ?thesis
    using missing_name_no_tag [of ?s PK_MESSAGE ProtobufKinds]
      missing_name_no_tag [of ?t PK_FIELD ProtobufKinds] s t
    by (simp add: TOKEN_ID_def TOKEN_EOF_def)
qed

subsection \<open>Fields\<close>

lemma parseStatement_field_tags:
  "tags (parseStatement kinds PK_FIELD s) =
     tags s @
       (if fst (skipFieldType (nextToken s)) \<and>
           token_type (snd (skipFieldType (nextToken s))) = TOKEN_ID \<and> enabled (kinds PK_FIELD)
        then [\<lparr>tagName = token_value (snd (skipFieldType (nextToken s))),
               kindName = name (kinds PK_FIELD), kind = letter (kinds PK_FIELD)\<rparr>]
        else [])"
proof -
  obtain ok s1 where a: "skipFieldType (nextToken s) = (ok, s1)"
    by (cases "skipFieldType (nextToken s)")
  have t: "tags s1 = tags s"
    using skipFieldType_tags [of "nextToken s"] a by simp
  show ?thesis
    using t by (simp add: parseStatement_def a Let_def createProtobufTag_tags)
qed

lemma field_dotted:
  "tags (findProtobufTags ProtobufKinds ''repeated foo.Bar.Baz items = 3;'' initial) =
     [\<lparr>tagName = ''items'', kindName = ''field'', kind = CHR ''f''\<rparr>]"
  by code_simp

lemma field_malformed:
  "tags (findProtobufTags ProtobufKinds ''repeated foo..Bar items = 3;'' initial) = []"
  "tags (findProtobufTags ProtobufKinds ''repeated foo.Bar = 3;'' initial) = []"
  by code_simp+

lemma field_dotted_more:
  "tags (findProtobufTags ProtobufKinds ''optional pkg.Msg value = 1;'' initial) =
     [\<lparr>tagName = ''value'', kindName = ''field'', kind = CHR ''f''\<rparr>]"
  "tags (findProtobufTags ProtobufKinds ''required .pkg.Msg value = 1;'' initial) =
     [\<lparr>tagName = ''value'', kindName = ''field'', kind = CHR ''f''\<rparr>]"
  by code_simp+

lemma skipFieldType_abort:
  assumes "token_type (if token_type t = ch CHR ''.'' then nextToken t else t) \<noteq> TOKEN_ID"
  shows "skipFieldType t = (False, if token_type t = ch CHR ''.'' then nextToken t else t)"
  using assms by (cases t rule: skipFieldType_cases) simp_all

lemma skipFieldType_at_identifier:
  assumes "token_type t = TOKEN_ID"
  shows "skipFieldType t =
     (if token_type (nextToken t) = ch CHR ''.'' then skipFieldType (nextToken t)
      else (True, nextToken t))"
proof -
  have "(if token_type t = ch CHR ''.'' then nextToken t else t) = t"
    using assms by (simp add: TOKEN_ID_def)
  then show ?thesis
    using assms by (cases t rule: skipFieldType_cases) simp_all
qed

lemma skipFieldType_at_dot:
  assumes "token_type t = ch CHR ''.''" and "token_type (nextToken t) = TOKEN_ID"
  shows "skipFieldType t = skipFieldType (nextToken t)"
proof -
  have "(if token_type t = ch CHR ''.'' then nextToken t else t) = nextToken t"
    using assms(1) by simp
  then have "skipFieldType t =
     (if token_type (nextToken (nextToken t)) = ch CHR ''.''
      then skipFieldType (nextToken (nextToken t)) else (True, nextToken (nextToken t)))"
    using assms(2) by (cases t rule: skipFieldType_cases) simp_all
  then show ?thesis
    using skipFieldType_at_identifier [OF assms(2)] by simp
qed

lemma dottedPath_identifier:
  "dottedPath n t \<Longrightarrow> token_type t = TOKEN_ID"
  by (cases n) simp_all

lemma skipFieldType_dottedPath:
  "dottedPath n t \<Longrightarrow> skipFieldType t = (True, (nextToken ^^ (2 * n + 1)) t)"
proof (induction n arbitrary: t)
  case 0
  then show ?case
    using skipFieldType_at_identifier [of t] by simp
next
  case (Suc n)
  let ?u = "nextToken (nextToken t)"
  have p: "token_type t = TOKEN_ID" "token_type (nextToken t) = ch CHR ''.''" "dottedPath n ?u"
    using Suc.prems by simp_all
  have "skipFieldType t = skipFieldType (nextToken t)"
    using skipFieldType_at_identifier [OF p(1)] p(2) by simp
  also have "\<dots> = skipFieldType ?u"
    using p(2) dottedPath_identifier [OF p(3)] by (rule skipFieldType_at_dot)
  also have "\<dots> = (True, (nextToken ^^ (2 * n + 1)) ?u)"
    using p(3) by (rule Suc.IH)
  also have "(nextToken ^^ (2 * n + 1)) ?u = (nextToken ^^ (2 * Suc n + 1)) t"
    by (simp add: funpow_swap1)
  finally show ?case .
qed

text \<open>Claim C2. The run on \<^verbatim>\<open>repeated foo.Bar.Baz items = 3;\<close> makes exactly one tag, the
  field named items, and so do the runs on other dotted types, with or without a leading
  dot. Skipping the type makes no tag. The loop is settled at every token: at an
  identifier it steps on when a dot follows and stops with success otherwise, at a dot
  it steps on when an identifier follows, and it gives up as soon as a token that
  should be an identifier of the type is not one. Hence a dotted name of any number of
  identifiers is skipped whole, with success. For a field, \<open>parseStatement\<close> makes no tag
  when the type was given up or the token after the type is not an identifier, and
  otherwise exactly one, named by that token (when the field kind is enabled); after a
  dotted name that is the token right after the name.\<close>

theorem field_with_dotted_type:
  "tags (findProtobufTags ProtobufKinds ''repeated foo.Bar.Baz items = 3;'' initial) =
     [\<lparr>tagName = ''items'', kindName = ''field'', kind = CHR ''f''\<rparr>] \<and>
   tags (findProtobufTags ProtobufKinds ''repeated foo..Bar items = 3;'' initial) = [] \<and>
   tags (findProtobufTags ProtobufKinds ''repeated foo.Bar = 3;'' initial) = [] \<and>
   tags (snd (skipFieldType t)) = tags t \<and>
   (token_type (if token_type t = ch CHR ''.'' then nextToken t else t) \<noteq> TOKEN_ID \<longrightarrow>
      skipFieldType t = (False, if token_type t = ch CHR ''.'' then nextToken t else t)) \<and>
   (token_type t = TOKEN_ID \<and> token_type (nextToken t) = ch CHR ''.'' \<longrightarrow>
      skipFieldType t = skipFieldType (nextToken t)) \<and>
   (token_type t = TOKEN_ID \<and> token_type (nextToken t) \<noteq> ch CHR ''.'' \<longrightarrow>
      skipFieldType t = (True, nextToken t)) \<and>
   (\<not> fst (skipFieldType (nextToken s)) \<or>
    token_type (snd (skipFieldType (nextToken s))) \<noteq> TOKEN_ID \<longrightarrow>
      tags (parseStatement kinds PK_FIELD s) = tags s) \<and>
   (fst (skipFieldType (nextToken s)) \<and>
    token_type (snd (skipFieldType (nextToken s))) = TOKEN_ID \<and> enabled (kinds PK_FIELD) \<longrightarrow>
      tags (parseStatement kinds PK_FIELD s) =
        tags s @ [\<lparr>tagName = token_value (snd (skipFieldType (nextToken s))),
                   kindName = name (kinds PK_FIELD), kind = letter (kinds PK_FIELD)\<rparr>]) \<and>
   (token_type t = ch CHR ''.'' \<and> token_type (nextToken t) = TOKEN_ID \<longrightarrow>
      skipFieldType t = skipFieldType (nextToken t)) \<and>
   (dottedPath n t \<longrightarrow> skipFieldType t = (True, (nextToken ^^ (2 * n + 1)) t)) \<and>
   (dottedPath n (nextToken s) \<and>
    token_type ((nextToken ^^ (2 * n + 1)) (nextToken s)) = TOKEN_ID \<and>
    enabled (kinds PK_FIELD) \<longrightarrow>
      tags (parseStatement kinds PK_FIELD s) =
        tags s @ [\<lparr>tagName = token_value ((nextToken ^^ (2 * n + 1)) (nextToken s)),
                   kindName = name (kinds PK_FIELD), kind = letter (kinds PK_FIELD)\<rparr>]) \<and>
   tags (findProtobufTags ProtobufKinds ''optional pkg.Msg value = 1;'' initial) =
     [\<lparr>tagName = ''value'', kindName = ''field'', kind = CHR ''f''\<rparr>] \<and>
   tags (findProtobufTags ProtobufKinds ''required .pkg.Msg value = 1;'' initial) =
     [\<lparr>tagName = ''value'', kindName = ''field'', kind = CHR ''f''\<rparr>]"
proof -
  have again: "skipFieldType t = skipFieldType (nextToken t)"
    if "token_type t = TOKEN_ID \<and> token_type (nextToken t) = ch CHR ''.''"
    using that skipFieldType_at_identifier [of t] by simp
  have finished: "skipFieldType t = (True, nextToken t)"
    if "token_type t = TOKEN_ID \<and> token_type (nextToken t) \<noteq> ch CHR ''.''"
    using that skipFieldType_at_identifier [of t] by simp
  have dot: "skipFieldType t = skipFieldType (nextToken t)"
    if "token_type t = ch CHR ''.'' \<and> token_type (nextToken t) = TOKEN_ID"
    using that skipFieldType_at_dot [of t] by simp
  have path: "tags (parseStatement kinds PK_FIELD s) =
        tags s @ [\<lparr>tagName = token_value ((nextToken ^^ (2 * n + 1)) (nextToken s)),
                   kindName = name (kinds PK_FIELD), kind = letter (kinds PK_FIELD)\<rparr>]"
    if "dottedPath n (nextToken s) \<and>
      token_type ((nextToken ^^ (2 * n + 1)) (nextToken s)) = TOKEN_ID \<and>
      enabled (kinds PK_FIELD)"
    using that skipFieldType_dottedPath [of n "nextToken s"]
    by (simp add: parseStatement_field_tags)
  have old: "(\<not> fst (skipFieldType (nextToken s)) \<or>
    token_type (snd (skipFieldType (nextToken s))) \<noteq> TOKEN_ID \<longrightarrow>
      tags (parseStatement kinds PK_FIELD s) = tags s) \<and>
   (fst (skipFieldType (nextToken s)) \<and>
    token_type (snd (skipFieldType (nextToken s))) = TOKEN_ID \<and> enabled (kinds PK_FIELD) \<longrightarrow>
      tags (parseStatement kinds PK_FIELD s) =
        tags s @ [\<lparr>tagName = token_value (snd (skipFieldType (nextToken s))),
                   kindName = name (kinds PK_FIELD), kind = letter (kinds PK_FIELD)\<rparr>])"
    by (auto simp: parseStatement_field_tags)
  show ?thesis
    using field_dotted field_malformed field_dotted_more skipFieldType_abort [of t] again finished
      dot path old skipFieldType_dottedPath [of n t] skipFieldType_tags [of t]
    by blast
qed

theorem field_with_dotted_type_witness:
  "skipFieldType (nextToken (cppInit ''= 3'' initial)) =
     (False, nextToken (cppInit ''= 3'' initial)) \<and>
   skipFieldType (nextToken (cppInit ''foo.Bar items'' initial)) =
     skipFieldType (nextToken (nextToken (cppInit ''foo.Bar items'' initial))) \<and>
   skipFieldType (nextToken (cppInit ''Bar items'' initial)) =
     (True, nextToken (nextToken (cppInit ''Bar items'' initial))) \<and>
   tags (parseStatement ProtobufKinds PK_FIELD (nextToken (cppInit ''repeated foo. = 3;'' initial))) = [] \<and>
   tags (parseStatement ProtobufKinds PK_FIELD
      (nextToken (cppInit ''repeated foo.Bar.Baz items = 3;'' initial))) =
     [\<lparr>tagName = ''items'', kindName = ''field'', kind = CHR ''f''\<rparr>] \<and>
   skipFieldType (nextToken (cppInit ''.Bar items'' initial)) =
     skipFieldType (nextToken (nextToken (cppInit ''.Bar items'' initial))) \<and>
   skipFieldType (nextToken (cppInit ''pkg.Msg value = 1;'' initial)) =
     (True, (nextToken ^^ 3) (nextToken (cppInit ''pkg.Msg value = 1;'' initial))) \<and>
   tags (parseStatement ProtobufKinds PK_FIELD
      (nextToken (cppInit ''optional pkg.Msg value = 1;'' initial))) =
     [\<lparr>tagName = ''value'', kindName = ''field'', kind = CHR ''f''\<rparr>]"
proof -
  let ?a = "nextToken (cppInit ''= 3'' initial)"
  let ?b = "nextToken (cppInit ''foo.Bar items'' initial)"
  let ?c = "nextToken (cppInit ''Bar items'' initial)"
  let ?d = "nextToken (cppInit ''repeated foo. = 3;'' initial)"
  let ?e = "nextToken (cppInit ''repeated foo.Bar.Baz items = 3;'' initial)"
  let ?f = "nextToken (cppInit ''.Bar items'' initial)"
  let ?g = "nextToken (cppInit ''pkg.Msg value = 1;'' initial)"
  let ?h = "nextToken (cppInit ''optional pkg.Msg value = 1;'' initial)"
  have a: "token_type ?a = ch CHR ''=''"
    by code_simp
  have b: "token_type ?b = TOKEN_ID" "token_type (nextToken ?b) = ch CHR ''.''"
    by code_simp+
  have c: "token_type ?c = TOKEN_ID" "token_type (nextToken ?c) = TOKEN_ID"
    by code_simp+
  have d: "\<not> fst (skipFieldType (nextToken ?d))" "tags ?d = []"
    by code_simp+
  have e: "fst (skipFieldType (nextToken ?e))"
    "token_type (snd (skipFieldType (nextToken ?e))) = TOKEN_ID"
    "token_value (snd (skipFieldType (nextToken ?e))) = ''items''" "tags ?e = []"
    by code_simp+
  have f: "token_type ?f = ch CHR ''.''" "token_type (nextToken ?f) = TOKEN_ID"
    by code_simp+
  have g: "dottedPath 1 ?g"
    by code_simp
  have h: "dottedPath 1 (nextToken ?h)"
    "token_type ((nextToken ^^ 3) (nextToken ?h)) = TOKEN_ID"
    "token_value ((nextToken ^^ 3) (nextToken ?h)) = ''value''" "tags ?h = []"
    by code_simp+
  have t1: "skipFieldType ?a = (False, ?a)"
    using field_with_dotted_type [where t = ?a and s = ?d and kinds = ProtobufKinds and n = 0] a
    by (simp add: TOKEN_ID_def)
  have t2: "skipFieldType ?b = skipFieldType (nextToken ?b)"
    using field_with_dotted_type [where t = ?b and s = ?d and kinds = ProtobufKinds and n = 0] b
    by simp
  have t3: "skipFieldType ?c = (True, nextToken ?c)"
    using field_with_dotted_type [where t = ?c and s = ?d and kinds = ProtobufKinds and n = 0] c
    by (simp add: TOKEN_ID_def)
  have t4: "tags (parseStatement ProtobufKinds PK_FIELD ?d) = []"
    using field_with_dotted_type [where t = ?a and s = ?d and kinds = ProtobufKinds and n = 0] d
    by simp
  have t5: "tags (parseStatement ProtobufKinds PK_FIELD ?e) =
     [\<lparr>tagName = ''items'', kindName = ''field'', kind = CHR ''f''\<rparr>]"
    using field_with_dotted_type [where t = ?a and s = ?e and kinds = ProtobufKinds and n = 0] e
    by simp
  have t6: "skipFieldType ?f = skipFieldType (nextToken ?f)"
    using field_with_dotted_type [where t = ?f and s = ?d and kinds = ProtobufKinds and n = 0] f
    by simp
  have "skipFieldType ?g = (True, (nextToken ^^ (2 * 1 + 1)) ?g)"
    using field_with_dotted_type [where t = ?g and s = ?d and kinds = ProtobufKinds and n = 1] g
    by blast
  then have t7: "skipFieldType ?g = (True, (nextToken ^^ 3) ?g)"
    by simp
  have en: "enabled (ProtobufKinds PK_FIELD)"
    by simp
  have h': "token_type ((nextToken ^^ (2 * 1 + 1)) (nextToken ?h)) = TOKEN_ID"
    "token_value ((nextToken ^^ (2 * 1 + 1)) (nextToken ?h)) = ''value''"
    using h(2,3) by simp_all
  have "tags (parseStatement ProtobufKinds PK_FIELD ?h) =
      tags ?h @ [\<lparr>tagName = token_value ((nextToken ^^ (2 * 1 + 1)) (nextToken ?h)),
                   kindName = name (ProtobufKinds PK_FIELD), kind = letter (ProtobufKinds PK_FIELD)\<rparr>]"
    using field_with_dotted_type [where t = ?a and s = ?h and kinds = ProtobufKinds and n = 1]
      h(1) h'(1) en
    by blast
  then have t8: "tags (parseStatement ProtobufKinds PK_FIELD ?h) =
     [\<lparr>tagName = ''value'', kindName = ''field'', kind = CHR ''f''\<rparr>]"
    using h'(2) h(4) by simp
  show ?thesis
    using t1 t2 t3 t4 t5 t6 t7 t8 by simp
qed

subsection \<open>Classification of characters\<close>

lemma ch_underscore [simp]:
  "(ch c = 95) = (c = CHR ''_'')"
proof -
  have "(ch c = ch CHR ''_'') = (c = CHR ''_'')"
    by (rule of_char_eq_iff)
  then show ?thesis
    by simp
qed

lemma identChar_guard:
  "identChar c \<Longrightarrow> 0 < ch c \<and> (isalnum (ch c) \<or> ch c = ch CHR ''_'')"
  by (auto simp: identChar_def isalnum_def)

lemma not_identChar_guard:
  "\<not> identChar c \<Longrightarrow> \<not> (0 < ch c \<and> (isalnum (ch c) \<or> ch c = ch CHR ''_''))"
  by (auto simp: identChar_def)

lemma identChar_not_punct:
  "identChar c \<Longrightarrow>
   \<not> (ch c = ch CHR ''{'' \<or> ch c = ch CHR ''}'' \<or> ch c = ch CHR '';'' \<or>
      ch c = ch CHR ''.'' \<or> ch c = ch CHR ''='')"
  by (auto simp: identChar_def isalnum_def)

lemma ch_punctuation:
  "(ch c = 123) = (c = CHR ''{'')" "(ch c = 125) = (c = CHR ''}'')"
  "(ch c = 59) = (c = CHR '';'')" "(ch c = 46) = (c = CHR ''.'')"
  "(ch c = 61) = (c = CHR ''='')"
  using of_char_eq_iff [of c "CHR ''{''", where ?'a = int]
    of_char_eq_iff [of c "CHR ''}''", where ?'a = int]
    of_char_eq_iff [of c "CHR '';''", where ?'a = int]
    of_char_eq_iff [of c "CHR ''.''", where ?'a = int]
    of_char_eq_iff [of c "CHR ''=''", where ?'a = int]
  by simp_all

lemma punctuation_guard:
  "punctuation c =
   (ch c = ch CHR ''{'' \<or> ch c = ch CHR ''}'' \<or> ch c = ch CHR '';'' \<or>
    ch c = ch CHR ''.'' \<or> ch c = ch CHR ''='')"
  by (auto simp: punctuation_def ch_punctuation)

lemma cppGetc_input:
  "ungetch s = None \<Longrightarrow> input s = c # cs \<Longrightarrow>
   cppGetc s = (ch c, s\<lparr>input := cs, calls := Getc # calls s\<rparr>)"
  "ungetch s = None \<Longrightarrow> input s = [] \<Longrightarrow> cppGetc s = (EOF, s\<lparr>calls := Getc # calls s\<rparr>)"
  by (simp_all add: cppGetc_def)

lemma identLoop_run:
  "ungetch s = None \<Longrightarrow> input s = run @ rest \<Longrightarrow> identChar c \<Longrightarrow> list_all identChar run \<Longrightarrow>
   (case rest of [] \<Rightarrow> True | r # _ \<Rightarrow> \<not> identChar r) \<Longrightarrow>
   identLoop (ch c) s =
     (case rest of [] \<Rightarrow> EOF | r # _ \<Rightarrow> ch r,
      s\<lparr>input := tl rest, token_value := token_value s @ c # run,
        calls := replicate (Suc (length run)) Getc @ calls s\<rparr>)"
proof (induction run arbitrary: c s)
  case Nil
  let ?s1 = "vStringPut (ch c) s"
  show ?case
  proof (cases rest)
    case Nil
    have g: "cppGetc ?s1 = (EOF, ?s1\<lparr>calls := Getc # calls ?s1\<rparr>)"
      using Nil.prems Nil by (intro cppGetc_input) (simp_all add: vStringPut_def)
    have "identLoop (ch c) s = identLoop EOF (?s1\<lparr>calls := Getc # calls ?s1\<rparr>)"
      using identLoop_step [OF identChar_guard [OF Nil.prems(3)] g] .
    also have "\<dots> = (EOF, ?s1\<lparr>calls := Getc # calls ?s1\<rparr>)"
      by (rule identLoop_stop) (simp add: EOF_def)
    finally show ?thesis
      using Nil Nil.prems by (simp add: vStringPut_def)
  next
    case (Cons r rs)
    have g: "cppGetc ?s1 = (ch r, ?s1\<lparr>input := rs, calls := Getc # calls ?s1\<rparr>)"
      using Nil.prems Cons by (intro cppGetc_input) (simp_all add: vStringPut_def)
    have nr: "\<not> identChar r"
      using Nil.prems(5) Cons by simp
    have "identLoop (ch c) s = identLoop (ch r) (?s1\<lparr>input := rs, calls := Getc # calls ?s1\<rparr>)"
      using identLoop_step [OF identChar_guard [OF Nil.prems(3)] g] .
    also have "\<dots> = (ch r, ?s1\<lparr>input := rs, calls := Getc # calls ?s1\<rparr>)"
      by (rule identLoop_stop [OF not_identChar_guard [OF nr]])
    finally show ?thesis
      using Cons Nil.prems by (simp add: vStringPut_def)
  qed
next
  case (Cons d run)
  let ?s1 = "vStringPut (ch c) s"
  let ?s2 = "?s1\<lparr>input := run @ rest, calls := Getc # calls ?s1\<rparr>"
  have g: "cppGetc ?s1 = (ch d, ?s2)"
    using Cons.prems by (intro cppGetc_input) (simp_all add: vStringPut_def)
  have "identLoop (ch c) s = identLoop (ch d) ?s2"
    using identLoop_step [OF identChar_guard [OF Cons.prems(3)] g] .
  also have "\<dots> = (case rest of [] \<Rightarrow> EOF | r # _ \<Rightarrow> ch r,
      ?s2\<lparr>input := tl rest, token_value := token_value ?s2 @ d # run,
        calls := replicate (Suc (length run)) Getc @ calls ?s2\<rparr>)"
    using Cons.prems by (intro Cons.IH) (simp_all add: vStringPut_def)
  finally show ?case
    by (simp add: vStringPut_def replicate_app_Cons_same)
qed

lemma nextToken_identifier:
  assumes "ungetch s = None" and "input s = c # run @ rest" and "identChar c"
    and "list_all identChar run" and "case rest of [] \<Rightarrow> True | r # _ \<Rightarrow> \<not> identChar r"
  shows "nextToken s =
     s\<lparr>input := tl rest, ungetch := Some (case rest of [] \<Rightarrow> EOF | r # _ \<Rightarrow> ch r),
       calls := Ungetc # replicate (Suc (Suc (length run))) Getc @ calls s,
       token_type := TOKEN_ID, token_value := c # run\<rparr>"
proof -
  let ?s1 = "s\<lparr>input := run @ rest, calls := Getc # calls s\<rparr>"
  let ?s2 = "vStringClear (?s1\<lparr>token_type := TOKEN_ID\<rparr>)"
  have g: "cppGetc s = (ch c, ?s1)"
    using assms(1,2) by (intro cppGetc_input) simp_all
  note gd = identChar_guard [OF assms(3)]
  have i: "identLoop (ch c) ?s2 =
     (case rest of [] \<Rightarrow> EOF | r # _ \<Rightarrow> ch r,
      ?s2\<lparr>input := tl rest, token_value := token_value ?s2 @ c # run,
        calls := replicate (Suc (length run)) Getc @ calls ?s2\<rparr>)"
    using assms by (intro identLoop_run) (simp_all add: vStringClear_def)
  have "nextToken s = cppUngetc (case rest of [] \<Rightarrow> EOF | r # _ \<Rightarrow> ch r)
      (?s2\<lparr>input := tl rest, token_value := token_value ?s2 @ c # run,
        calls := replicate (Suc (length run)) Getc @ calls ?s2\<rparr>)"
    using gd by (intro nextToken_ident [OF g _ identChar_not_punct [OF assms(3)] _ i]) simp_all
  then show ?thesis
    by (simp add: cppUngetc_def vStringClear_def replicate_app_Cons_same)
qed

lemma nextToken_end_of_stream:
  assumes "ungetch s = None" and "input s = []"
  shows "nextToken s = s\<lparr>calls := Getc # calls s, token_type := TOKEN_EOF\<rparr>"
  using nextToken_eof [OF cppGetc_input(2) [OF assms]] by (simp add: EOF_def)

lemma nextToken_punctuation:
  assumes "ungetch s = None" and "input s = c # cs" and "punctuation c"
  shows "nextToken s = s\<lparr>input := cs, calls := Getc # calls s, token_type := ch c\<rparr>"
proof -
  have p: "ch c = ch CHR ''{'' \<or> ch c = ch CHR ''}'' \<or> ch c = ch CHR '';'' \<or>
      ch c = ch CHR ''.'' \<or> ch c = ch CHR ''=''"
    using assms(3) unfolding punctuation_guard .
  then have "0 < ch c"
    by auto
  then show ?thesis
    using nextToken_punct [OF cppGetc_input(1) [OF assms(1,2)] _ p] by simp
qed

lemma nextToken_discards:
  assumes "ungetch s = None" and "input s = c # cs" and "0 < ch c"
    and "\<not> punctuation c" and "\<not> identChar c"
  shows "nextToken s = nextToken (s\<lparr>input := cs, calls := Getc # calls s\<rparr>)"
proof -
  have np: "\<not> (ch c = ch CHR ''{'' \<or> ch c = ch CHR ''}'' \<or> ch c = ch CHR '';'' \<or>
      ch c = ch CHR ''.'' \<or> ch c = ch CHR ''='')"
    using assms(4) unfolding punctuation_guard .
  have ni: "\<not> (isalnum (ch c) \<or> ch c = ch CHR ''_'')"
    using assms(5) by (simp add: identChar_def)
  show ?thesis
    using nextToken_other [OF cppGetc_input(1) [OF assms(1,2)] assms(3) np ni] .
qed

lemma nextToken_nul:
  assumes "ungetch s = None" and "input s = c # cs" and "ch c \<le> 0"
  shows "nextToken s = s\<lparr>input := cs, calls := Getc # calls s, token_type := TOKEN_EOF\<rparr>"
  using nextToken_eof [OF cppGetc_input(1) [OF assms(1,2)] assms(3)] by simp

lemma nextToken_nothing_to_scan:
  "ungetch s = None \<Longrightarrow> input s = cs \<Longrightarrow>
   list_all (\<lambda>c. \<not> punctuation c \<and> \<not> identChar c) cs \<Longrightarrow>
   token_type (nextToken s) = TOKEN_EOF"
proof (induction cs arbitrary: s)
  case Nil
  then show ?case
    by (simp add: nextToken_end_of_stream)
next
  case (Cons c cs)
  show ?case
  proof (cases "0 < ch c")
    case True
    have "nextToken s = nextToken (s\<lparr>input := cs, calls := Getc # calls s\<rparr>)"
      using Cons.prems True by (intro nextToken_discards) auto
    moreover have "token_type (nextToken (s\<lparr>input := cs, calls := Getc # calls s\<rparr>)) = TOKEN_EOF"
      using Cons.prems by (intro Cons.IH) simp_all
    ultimately show ?thesis
      by simp
  next
    case False
    then have nul: "ch c \<le> 0"
      by simp
    show ?thesis
      using nextToken_nul [OF Cons.prems(1) _ nul, of cs] Cons.prems(2) by simp
  qed
qed

lemma nextToken_token_type:
  "token_type (nextToken s) = TOKEN_EOF \<or> token_type (nextToken s) = TOKEN_ID \<or>
   token_type (nextToken s) \<in> set (map ch ''{};.='')"
proof (induction s rule: nextToken.induct)
  case (1 s)
  obtain c s1 where g: "cppGetc s = (c, s1)"
    by (cases "cppGetc s")
  from g show ?case
  proof (cases rule: nextToken_cases)
    case eof
    then show ?thesis
      by simp
  next
    case punct
    then show ?thesis
      by auto
  next
    case (ident c' s2)
    then show ?thesis
      using identLoop_frame [OF ident(3)] by (simp add: cppUngetc_def vStringClear_def)
  next
    case other
    then show ?thesis
      using "1.IH" [OF g [symmetric]] by simp
  qed
qed

lemma nextToken_pushback_discarded:
  assumes "ungetch s = Some c" and "0 < c"
    and "\<not> (c = ch CHR ''{'' \<or> c = ch CHR ''}'' \<or> c = ch CHR '';'' \<or> c = ch CHR ''.'' \<or> c = ch CHR ''='')"
    and "\<not> (isalnum c \<or> c = ch CHR ''_'')"
  shows "nextToken s = nextToken (s\<lparr>ungetch := None, calls := Getc # calls s\<rparr>)"
proof -
  have "cppGetc s = (c, s\<lparr>ungetch := None, calls := Getc # calls s\<rparr>)"
    using assms(1) by (simp add: cppGetc_def)
  then show ?thesis
    using assms(2,3,4) by (rule nextToken_other)
qed

lemma nextToken_after_space:
  assumes "ungetch s = Some (ch CHR '' '')"
  shows "nextToken s = nextToken (s\<lparr>ungetch := None, calls := Getc # calls s\<rparr>)"
  using assms by (rule nextToken_pushback_discarded) (simp_all add: isalnum_def)

lemma nextToken_same_fetch:
  "cppGetc s = cppGetc s' \<Longrightarrow> nextToken s = nextToken s'"
  by (simp add: nextToken.simps [of s] nextToken.simps [of s'])

lemma nextToken_pushback_char:
  assumes "ungetch s = Some (ch d)"
  shows "nextToken s = nextToken (s\<lparr>ungetch := None, input := d # input s\<rparr>)"
proof (rule nextToken_same_fetch)
  show "cppGetc s = cppGetc (s\<lparr>ungetch := None, input := d # input s\<rparr>)"
    using assms by (simp add: cppGetc_def)
qed

lemma nextToken_pushback_end:
  assumes "ungetch s = Some c" and "c \<le> 0"
  shows "nextToken s = s\<lparr>ungetch := None, calls := Getc # calls s, token_type := TOKEN_EOF\<rparr>"
proof -
  have "cppGetc s = (c, s\<lparr>ungetch := None, calls := Getc # calls s\<rparr>)"
    using assms(1) by (simp add: cppGetc_def)
  then show ?thesis
    using assms(2) by (rule nextToken_eof)
qed

lemma nextToken_pushback_large:
  assumes "ungetch s = Some c" and "255 < c"
  shows "nextToken s = nextToken (s\<lparr>ungetch := None, calls := Getc # calls s\<rparr>)"
  using assms by (intro nextToken_pushback_discarded) (auto simp: isalnum_def)

text \<open>Claim C5, as amended. Every call of \<open>nextToken\<close> returns with one of the three kinds
  of token. With nothing pushed back: at the end of the stream the token is the
  end-of-input token; a fetched value that is not positive (the end marker, but also a
  NUL character) gives the end-of-input token; one of \<open>{ } ; . =\<close> gives that punctuation
  token; a maximal run of alphanumeric or underscore characters gives one identifier
  token whose text is the run, and the value fetched after the run (the next character
  or the end marker) is pushed back; any other character with a positive code is
  discarded and scanning goes on. With a value pushed back, as after every identifier:
  a pushed-back character is scanned exactly as if it were the next character of the
  stream, a pushed-back end marker gives the end-of-input token, and a pushed-back
  value beyond the character codes is discarded. An input made only of characters
  outside the punctuation and identifier classes gives the end-of-input token.\<close>

theorem nextToken_classifies:
  "(token_type (nextToken s) = TOKEN_EOF \<or> token_type (nextToken s) = TOKEN_ID \<or>
    token_type (nextToken s) \<in> set (map ch ''{};.='')) \<and>
   (ungetch s = None \<and> input s = [] \<longrightarrow>
      nextToken s = s\<lparr>calls := Getc # calls s, token_type := TOKEN_EOF\<rparr>) \<and>
   (ungetch s = None \<and> input s = c # cs \<and> ch c \<le> 0 \<longrightarrow>
      nextToken s = s\<lparr>input := cs, calls := Getc # calls s, token_type := TOKEN_EOF\<rparr>) \<and>
   (ungetch s = None \<and> input s = c # cs \<and> punctuation c \<longrightarrow>
      nextToken s = s\<lparr>input := cs, calls := Getc # calls s, token_type := ch c\<rparr>) \<and>
   (ungetch s = None \<and> input s = c # run @ rest \<and> identChar c \<and> list_all identChar run \<and>
    (case rest of [] \<Rightarrow> True | r # _ \<Rightarrow> \<not> identChar r) \<longrightarrow>
      nextToken s =
        s\<lparr>input := tl rest, ungetch := Some (case rest of [] \<Rightarrow> EOF | r # _ \<Rightarrow> ch r),
          calls := Ungetc # replicate (Suc (Suc (length run))) Getc @ calls s,
          token_type := TOKEN_ID, token_value := c # run\<rparr>) \<and>
   (ungetch s = None \<and> input s = c # cs \<and> 0 < ch c \<and> \<not> punctuation c \<and> \<not> identChar c \<longrightarrow>
      nextToken s = nextToken (s\<lparr>input := cs, calls := Getc # calls s\<rparr>)) \<and>
   (ungetch s = None \<and> list_all (\<lambda>c. \<not> punctuation c \<and> \<not> identChar c) (input s) \<longrightarrow>
      token_type (nextToken s) = TOKEN_EOF) \<and>
   (ungetch s = Some (ch d) \<longrightarrow>
      nextToken s = nextToken (s\<lparr>ungetch := None, input := d # input s\<rparr>)) \<and>
   (ungetch s = Some v \<and> v \<le> 0 \<longrightarrow>
      nextToken s = s\<lparr>ungetch := None, calls := Getc # calls s, token_type := TOKEN_EOF\<rparr>) \<and>
   (ungetch s = Some v \<and> 255 < v \<longrightarrow>
      nextToken s = nextToken (s\<lparr>ungetch := None, calls := Getc # calls s\<rparr>))"
proof (intro conjI impI)
  show "token_type (nextToken s) = TOKEN_EOF \<or> token_type (nextToken s) = TOKEN_ID \<or>
    token_type (nextToken s) \<in> set (map ch ''{};.='')"
    by (rule nextToken_token_type)
next
  assume "ungetch s = None \<and> input s = []"
  then show "nextToken s = s\<lparr>calls := Getc # calls s, token_type := TOKEN_EOF\<rparr>"
    using nextToken_end_of_stream [of s] by blast
next
  assume "ungetch s = None \<and> input s = c # cs \<and> ch c \<le> 0"
  then show "nextToken s = s\<lparr>input := cs, calls := Getc # calls s, token_type := TOKEN_EOF\<rparr>"
    using nextToken_nul [of s c cs] by blast
next
  assume "ungetch s = None \<and> input s = c # cs \<and> punctuation c"
  then show "nextToken s = s\<lparr>input := cs, calls := Getc # calls s, token_type := ch c\<rparr>"
    using nextToken_punctuation [of s c cs] by blast
next
  assume "ungetch s = None \<and> input s = c # run @ rest \<and> identChar c \<and> list_all identChar run \<and>
    (case rest of [] \<Rightarrow> True | r # _ \<Rightarrow> \<not> identChar r)"
  then show "nextToken s =
        s\<lparr>input := tl rest, ungetch := Some (case rest of [] \<Rightarrow> EOF | r # _ \<Rightarrow> ch r),
          calls := Ungetc # replicate (Suc (Suc (length run))) Getc @ calls s,
          token_type := TOKEN_ID, token_value := c # run\<rparr>"
    using nextToken_identifier [of s c run rest] by blast
next
  assume "ungetch s = None \<and> input s = c # cs \<and> 0 < ch c \<and> \<not> punctuation c \<and> \<not> identChar c"
  then show "nextToken s = nextToken (s\<lparr>input := cs, calls := Getc # calls s\<rparr>)"
    using nextToken_discards [of s c cs] by blast
next
  assume "ungetch s = None \<and> list_all (\<lambda>c. \<not> punctuation c \<and> \<not> identChar c) (input s)"
  then show "token_type (nextToken s) = TOKEN_EOF"
    using nextToken_nothing_to_scan [of s "input s"] by blast
next
  assume "ungetch s = Some (ch d)"
  then show "nextToken s = nextToken (s\<lparr>ungetch := None, input := d # input s\<rparr>)"
    by (rule nextToken_pushback_char)
next
  assume "ungetch s = Some v \<and> v \<le> 0"
  then show "nextToken s = s\<lparr>ungetch := None, calls := Getc # calls s, token_type := TOKEN_EOF\<rparr>"
    using nextToken_pushback_end [of s v] by blast
next
  assume "ungetch s = Some v \<and> 255 < v"
  then show "nextToken s = nextToken (s\<lparr>ungetch := None, calls := Getc # calls s\<rparr>)"
    using nextToken_pushback_large [of s v] by blast
qed

theorem nextToken_classifies_witness:
  "nextToken (cppInit [] initial) = (cppInit [] initial)\<lparr>calls := [Getc], token_type := TOKEN_EOF\<rparr> \<and>
   nextToken (cppInit [CHR 0x00, CHR ''a''] initial) =
     (cppInit [CHR 0x00, CHR ''a''] initial)\<lparr>input := ''a'', calls := [Getc], token_type := TOKEN_EOF\<rparr> \<and>
   nextToken (cppInit ''{x'' initial) =
     (cppInit ''{x'' initial)\<lparr>input := ''x'', calls := [Getc], token_type := ch CHR ''{''\<rparr> \<and>
   nextToken (cppInit ''ab_1 c'' initial) =
     (cppInit ''ab_1 c'' initial)\<lparr>input := ''c'', ungetch := Some (ch CHR '' ''),
        calls := [Ungetc, Getc, Getc, Getc, Getc, Getc],
        token_type := TOKEN_ID, token_value := ''ab_1''\<rparr> \<and>
   nextToken (cppInit '' x'' initial) =
     nextToken ((cppInit '' x'' initial)\<lparr>input := ''x'', calls := [Getc]\<rparr>) \<and>
   token_type (nextToken (cppInit '' (, )'' initial)) = TOKEN_EOF \<and>
   nextToken (nextToken (cppInit ''ab;c'' initial)) =
     (nextToken (cppInit ''ab;c'' initial))\<lparr>ungetch := None,
        calls := Getc # calls (nextToken (cppInit ''ab;c'' initial)),
        token_type := ch CHR '';''\<rparr> \<and>
   nextToken (nextToken (cppInit ''ab'' initial)) =
     (nextToken (cppInit ''ab'' initial))\<lparr>ungetch := None,
        calls := Getc # calls (nextToken (cppInit ''ab'' initial)), token_type := TOKEN_EOF\<rparr> \<and>
   nextToken ((cppInit ''{'' initial)\<lparr>ungetch := Some 300\<rparr>) =
     (cppInit ''{'' initial)\<lparr>input := [], calls := [Getc, Getc], token_type := ch CHR ''{''\<rparr>"
proof -
  have i: "identChar CHR ''a''" "list_all identChar ''b_1''" "\<not> identChar CHR '' ''"
    "\<not> identChar CHR ''(''" "\<not> identChar CHR '',''" "\<not> identChar CHR '')''"
    by (simp_all add: identChar_def isalnum_def)
  have p: "punctuation CHR ''{''" "\<not> punctuation CHR '' ''" "\<not> punctuation CHR ''(''"
    "\<not> punctuation CHR '',''" "\<not> punctuation CHR '')''" "punctuation CHR '';''"
    by (simp_all add: punctuation_def)
  have t1: "nextToken (cppInit [] initial) =
      (cppInit [] initial)\<lparr>calls := [Getc], token_type := TOKEN_EOF\<rparr>"
    using nextToken_classifies [of "cppInit [] initial" "CHR '' ''" "[]" "[]" "[]" "CHR '' ''" 0]
    by (simp add: cppInit_def initial_def)
  have t2: "nextToken (cppInit [CHR 0x00, CHR ''a''] initial) =
     (cppInit [CHR 0x00, CHR ''a''] initial)\<lparr>input := ''a'', calls := [Getc], token_type := TOKEN_EOF\<rparr>"
    using nextToken_classifies [of "cppInit [CHR 0x00, CHR ''a''] initial" "CHR 0x00" "''a''" "[]" "[]"
        "CHR '' ''" 0]
    by (simp add: cppInit_def initial_def)
  have t3: "nextToken (cppInit ''{x'' initial) =
     (cppInit ''{x'' initial)\<lparr>input := ''x'', calls := [Getc], token_type := ch CHR ''{''\<rparr>"
    using nextToken_classifies [of "cppInit ''{x'' initial" "CHR ''{''" "''x''" "[]" "[]" "CHR '' ''" 0] p
    by (simp add: cppInit_def initial_def)
  have t4: "nextToken (cppInit ''ab_1 c'' initial) =
     (cppInit ''ab_1 c'' initial)\<lparr>input := ''c'', ungetch := Some (ch CHR '' ''),
        calls := [Ungetc, Getc, Getc, Getc, Getc, Getc],
        token_type := TOKEN_ID, token_value := ''ab_1''\<rparr>"
    using nextToken_classifies [of "cppInit ''ab_1 c'' initial" "CHR ''a''" "[]" "''b_1''" "'' c''"
        "CHR '' ''" 0] i
    by (simp add: cppInit_def initial_def)
  have t5: "nextToken (cppInit '' x'' initial) =
     nextToken ((cppInit '' x'' initial)\<lparr>input := ''x'', calls := [Getc]\<rparr>)"
    using nextToken_classifies [of "cppInit '' x'' initial" "CHR '' ''" "''x''" "[]" "[]" "CHR '' ''" 0] i p
    by (simp add: cppInit_def initial_def)
  have t6: "token_type (nextToken (cppInit '' (, )'' initial)) = TOKEN_EOF"
    using nextToken_classifies [of "cppInit '' (, )'' initial" "CHR '' ''" "[]" "[]" "[]" "CHR '' ''" 0] i p
    by (simp add: cppInit_def initial_def)
  let ?a = "nextToken (cppInit ''ab;c'' initial)"
  let ?a' = "?a\<lparr>ungetch := None, input := CHR '';'' # input ?a\<rparr>"
  have a: "ungetch ?a = Some (ch CHR '';'')" "input ?a = ''c''"
    by code_simp+
  have a1: "nextToken ?a = nextToken ?a'"
    using nextToken_classifies [of ?a "CHR '' ''" "[]" "[]" "[]" "CHR '';''" 0] a(1) by simp
  have a2: "nextToken ?a' = ?a'\<lparr>input := ''c'', calls := Getc # calls ?a', token_type := ch CHR '';''\<rparr>"
    using nextToken_classifies [of ?a' "CHR '';''" "''c''" "[]" "[]" "CHR '' ''" 0] a(2) p(6)
    by simp
  have t7: "nextToken ?a = ?a\<lparr>ungetch := None, calls := Getc # calls ?a, token_type := ch CHR '';''\<rparr>"
    unfolding a1 a2 using a(2) by simp
  let ?b = "nextToken (cppInit ''ab'' initial)"
  have b: "ungetch ?b = Some (- 1)"
    by code_simp
  have t8: "nextToken ?b = ?b\<lparr>ungetch := None, calls := Getc # calls ?b, token_type := TOKEN_EOF\<rparr>"
    using nextToken_classifies [of ?b "CHR '' ''" "[]" "[]" "[]" "CHR '' ''" "- 1"] b by simp
  let ?c = "(cppInit ''{'' initial)\<lparr>ungetch := Some 300\<rparr>"
  let ?c' = "?c\<lparr>ungetch := None, calls := Getc # calls ?c\<rparr>"
  have c1: "nextToken ?c = nextToken ?c'"
    using nextToken_classifies [of ?c "CHR '' ''" "[]" "[]" "[]" "CHR '' ''" 300] by simp
  have c2: "nextToken ?c' = ?c'\<lparr>input := [], calls := Getc # calls ?c', token_type := ch CHR ''{''\<rparr>"
    using nextToken_classifies [of ?c' "CHR ''{''" "[]" "[]" "[]" "CHR '' ''" 0] p(1)
    by (simp add: cppInit_def)
  have t9: "nextToken ?c = (cppInit ''{'' initial)\<lparr>input := [], calls := [Getc, Getc],
      token_type := ch CHR ''{''\<rparr>"
    unfolding c1 c2 by (simp add: cppInit_def initial_def)
  show ?thesis
    using t1 t2 t3 t4 t5 t6 t7 t8 t9 by simp
qed

text \<open>Claim C5 as stated fails for the NUL character, which is neither punctuation nor
  alphanumeric nor underscore, yet is not discarded: the test \<^verbatim>\<open>c <= 0\<close> ends the scan
  with the end-of-input token while the character \<open>a\<close> is still unread. Discarding it
  and going on would have given the identifier \<open>a\<close>.\<close>

theorem nextToken_nul_counterexample:
  "\<not> punctuation (CHR 0x00) \<and> \<not> identChar (CHR 0x00) \<and>
   token_type (nextToken (cppInit [CHR 0x00, CHR ''a''] initial)) = TOKEN_EOF \<and>
   input (nextToken (cppInit [CHR 0x00, CHR ''a''] initial)) = ''a'' \<and>
   nextToken (cppInit [CHR 0x00, CHR ''a''] initial) \<noteq>
     nextToken ((cppInit [CHR 0x00, CHR ''a''] initial)\<lparr>input := ''a'', calls := [Getc]\<rparr>) \<and>
   token_type (nextToken ((cppInit [CHR 0x00, CHR ''a''] initial)\<lparr>input := ''a'', calls := [Getc]\<rparr>)) =
     TOKEN_ID"
proof -
  have a: "token_type (nextToken (cppInit [CHR 0x00, CHR ''a''] initial)) = TOKEN_EOF"
    "input (nextToken (cppInit [CHR 0x00, CHR ''a''] initial)) = ''a''"
    by code_simp+
  have b: "token_type (nextToken ((cppInit [CHR 0x00, CHR ''a''] initial)\<lparr>input := ''a'', calls := [Getc]\<rparr>)) =
     TOKEN_ID"
    by code_simp
  have c: "\<not> punctuation (CHR 0x00)" "\<not> identChar (CHR 0x00)"
    by (simp_all add: punctuation_def identChar_def isalnum_def)
  have "token_type (nextToken (cppInit [CHR 0x00, CHR ''a''] initial)) \<noteq>
     token_type (nextToken ((cppInit [CHR 0x00, CHR ''a''] initial)\<lparr>input := ''a'', calls := [Getc]\<rparr>))"
    unfolding a b by (simp add: TOKEN_EOF_def TOKEN_ID_def)
  then have "nextToken (cppInit [CHR 0x00, CHR ''a''] initial) \<noteq>
     nextToken ((cppInit [CHR 0x00, CHR ''a''] initial)\<lparr>input := ''a'', calls := [Getc]\<rparr>)"
    by auto
  then show ?thesis
    using a b c by simp
qed

subsection \<open>Message statements\<close>

text \<open>A statement other than a field or an enum, from its keyword to the opening brace.\<close>

lemma parseStatement_named:
  assumes "ungetch a = Some (ch CHR '' '')" and "input a = c # run @ '' {'' @ rest"
    and "identChar c" and "list_all identChar run" and "k \<noteq> PK_FIELD" and "k \<noteq> PK_ENUM"
  shows "input (parseStatement kinds k a) = rest"
    and "ungetch (parseStatement kinds k a) = None"
    and "token_type (parseStatement kinds k a) = ch CHR ''{''"
    and "tags (parseStatement kinds k a) = tags (createProtobufTag kinds (c # run) k a)"
proof -
  let ?a1 = "a\<lparr>ungetch := None, calls := Getc # calls a\<rparr>"
  have "nextToken ?a1 =
     ?a1\<lparr>input := tl ('' {'' @ rest),
       ungetch := Some (case '' {'' @ rest of [] \<Rightarrow> EOF | r # _ \<Rightarrow> ch r),
       calls := Ungetc # replicate (Suc (Suc (length run))) Getc @ calls ?a1,
       token_type := TOKEN_ID, token_value := c # run\<rparr>"
    using assms(2,3,4) by (intro nextToken_identifier) (simp_all add: identChar_def isalnum_def)
  then have b: "nextToken a =
     a\<lparr>input := ''{'' @ rest, ungetch := Some (ch CHR '' ''),
       calls := Ungetc # replicate (Suc (Suc (length run))) Getc @ Getc # calls a,
       token_type := TOKEN_ID, token_value := c # run\<rparr>"
    using nextToken_after_space [OF assms(1)] by simp
  define b where "b = nextToken a"
  define t where "t = createProtobufTag kinds (c # run) k b"
  have tb: "input t = ''{'' @ rest" "ungetch t = Some (ch CHR '' '')"
    "tags t = tags (createProtobufTag kinds (c # run) k a)"
    by (simp_all add: t_def b_def b createProtobufTag_def makeTagEntry_def)
  let ?t1 = "t\<lparr>ungetch := None, calls := Getc # calls t\<rparr>"
  have "nextToken ?t1 = ?t1\<lparr>input := rest, calls := Getc # calls ?t1, token_type := ch CHR ''{''\<rparr>"
    using tb by (intro nextToken_punctuation) (simp_all add: punctuation_def)
  then have n: "nextToken t = ?t1\<lparr>input := rest, calls := Getc # calls ?t1, token_type := ch CHR ''{''\<rparr>"
    using nextToken_after_space [OF tb(2)] by simp
  have "parseStatement kinds k a = nextToken t"
    using assms(5,6) by (simp add: parseStatement_def Let_def t_def b_def b)
  then show "input (parseStatement kinds k a) = rest"
    and "ungetch (parseStatement kinds k a) = None"
    and "token_type (parseStatement kinds k a) = ch CHR ''{''"
    and "tags (parseStatement kinds k a) = tags (createProtobufTag kinds (c # run) k a)"
    using n tb by simp_all
qed


lemma message_statement_first:
  assumes "identChar c" and "list_all identChar run"
  shows "resumes (tags (createProtobufTag kinds (c # run) PK_MESSAGE s))
     (findProtobufTags kinds rest initial)
     (findProtobufTags kinds (''message '' @ c # run @ '' {'' @ rest) s)"
proof -
  define s0 where "s0 = (cppInit (''message '' @ c # run @ '' {'' @ rest) s)\<lparr>token_value := []\<rparr>"
  have f0: "ungetch s0 = None" "input s0 = CHR ''m'' # ''essage'' @ ('' '' @ c # run @ '' {'' @ rest)"
    "tags s0 = tags s"
    by (simp_all add: s0_def cppInit_def)
  have a: "nextToken s0 =
     s0\<lparr>input := tl ('' '' @ c # run @ '' {'' @ rest),
       ungetch := Some (case '' '' @ c # run @ '' {'' @ rest of [] \<Rightarrow> EOF | r # _ \<Rightarrow> ch r),
       calls := Ungetc # replicate (Suc (Suc (length ''essage''))) Getc @ calls s0,
       token_type := TOKEN_ID, token_value := CHR ''m'' # ''essage''\<rparr>"
    using f0(1,2) by (rule nextToken_identifier) (simp_all add: identChar_def isalnum_def)
  define a where "a = nextToken s0"
  have fa: "ungetch a = Some (ch CHR '' '')" "input a = c # run @ '' {'' @ rest"
    "token_type a = TOKEN_ID" "token_value a = ''message''" "tags a = tags s"
    by (simp_all add: a_def a f0)
  have d: "dispatch kinds a = parseStatement kinds PK_MESSAGE a"
    by (simp add: dispatch_def tokenIsKeyword_def fa)
  note p = parseStatement_named [OF fa(1,2) assms, of PK_MESSAGE kinds]
  have sk: "skipUntil '';{}'' (dispatch kinds a) = dispatch kinds a"
    by (rule skipUntil_stop) (simp add: d p strchr_def)
  have body: "mainBody kinds a = nextToken (parseStatement kinds PK_MESSAGE a)"
    unfolding mainBody_def sk unfolding d ..
  have loop: "findProtobufTags kinds (''message '' @ c # run @ '' {'' @ rest) s =
      mainLoop kinds (nextToken (parseStatement kinds PK_MESSAGE a))"
    unfolding findProtobufTags_def [of kinds "''message '' @ c # run @ '' {'' @ rest" s]
      s0_def [symmetric] a_def [symmetric]
    using mainLoop_step [of a kinds] by (simp add: fa body TOKEN_ID_def TOKEN_EOF_def)
  have "tags (createProtobufTag kinds (c # run) PK_MESSAGE a) =
      tags (createProtobufTag kinds (c # run) PK_MESSAGE s)"
    by (simp add: createProtobufTag_tags fa)
  then have "resumes (tags (createProtobufTag kinds (c # run) PK_MESSAGE s))
     (nextToken ((cppInit rest initial)\<lparr>token_value := []\<rparr>))
     (nextToken (parseStatement kinds PK_MESSAGE a))"
    using p by (intro resumes_nextToken) (simp_all add: cppInit_def initial_def)
  then show ?thesis
    unfolding loop findProtobufTags_def [of kinds rest initial]
    by (rule in_step_mainLoop [OF in_step_resumes])
qed

lemma message_twice:
  "tags (findProtobufTags ProtobufKinds ''message Foo { ; message Foo ; }'' initial) =
     [\<lparr>tagName = ''Foo'', kindName = ''message'', kind = CHR ''m''\<rparr>,
      \<lparr>tagName = ''Foo'', kindName = ''message'', kind = CHR ''m''\<rparr>]"
  by code_simp

lemma message_never:
  "tags (findProtobufTags ProtobufKinds ''x message Foo { }'' initial) = []"
  by code_simp

text \<open>Claim C3 as stated fails in both directions. The body is scanned like top-level
  input, so a body holding the statement \<^verbatim>\<open>message Foo;\<close> makes the tag a second time;
  and when the keyword is not at the start of a statement (here after the identifier
  \<open>x\<close>) it is skipped with the rest of that statement and no tag is made.\<close>

theorem message_statement_tag_counterexample:
  "tags (findProtobufTags ProtobufKinds ''message Foo { ; message Foo ; }'' initial) =
     [\<lparr>tagName = ''Foo'', kindName = ''message'', kind = CHR ''m''\<rparr>,
      \<lparr>tagName = ''Foo'', kindName = ''message'', kind = CHR ''m''\<rparr>] \<and>
   tags (findProtobufTags ProtobufKinds ''x message Foo { }'' initial) = []"
  using message_twice message_never by simp

lemma message_statement_run:
  assumes "identChar c" and "list_all identChar run" and "enabled (kinds PK_MESSAGE)"
  shows "tags (findProtobufTags kinds (''message '' @ c # run @ '' {'' @ rest) x) =
       tags x @
       \<lparr>tagName = c # run, kindName = name (kinds PK_MESSAGE), kind = letter (kinds PK_MESSAGE)\<rparr> #
       tags (findProtobufTags kinds rest initial)"
  using message_statement_first [OF assms(1,2), of kinds x rest] assms(3)
  by (simp add: resumes_def createProtobufTag_tags)

lemma message_examples:
  "tags (findProtobufTags ProtobufKinds ''package p; message Foo { }'' initial) =
     [\<lparr>tagName = ''p'', kindName = ''package'', kind = CHR ''p''\<rparr>,
      \<lparr>tagName = ''Foo'', kindName = ''message'', kind = CHR ''m''\<rparr>]"
  "tags (findProtobufTags ProtobufKinds '' message Foo { }'' initial) =
     [\<lparr>tagName = ''Foo'', kindName = ''message'', kind = CHR ''m''\<rparr>]"
  "tags (findProtobufTags ProtobufKinds ''message Foo{ }'' initial) =
     [\<lparr>tagName = ''Foo'', kindName = ''message'', kind = CHR ''m''\<rparr>]"
  by code_simp+

text \<open>The tags of one pass of the top-level loop are those of its statement parser.\<close>

lemma mainBody_tags:
  "tags (mainBody kinds s) = tags (dispatch kinds s)"
  by (simp add: mainBody_def)

lemma dispatch_message:
  assumes "tokenIsKeyword ''message'' s"
  shows "dispatch kinds s = parseStatement kinds PK_MESSAGE s"
  using assms by (simp add: dispatch_def tokenIsKeyword_def)

lemma parseStatement_message_tags:
  "tags (parseStatement kinds PK_MESSAGE s) =
     tags s @
       (if token_type (nextToken s) = TOKEN_ID \<and> enabled (kinds PK_MESSAGE)
        then [\<lparr>tagName = token_value (nextToken s), kindName = name (kinds PK_MESSAGE),
               kind = letter (kinds PK_MESSAGE)\<rparr>]
        else [])"
  by (simp add: parseStatement_def Let_def createProtobufTag_tags)

text \<open>Under the source's table no other statement makes a tag with the letter of the
  message kind.\<close>

lemma enumLoop_message_tags:
  "filter (\<lambda>t. kind t = CHR ''m'') (tags (enumLoop (setEnabled en) s)) =
   filter (\<lambda>t. kind t = CHR ''m'') (tags s)"
proof (induction "setEnabled en" s rule: enumLoop.induct)
  case (1 s)
  show ?case
  proof (cases "token_type s \<noteq> TOKEN_EOF \<and> token_type s \<noteq> ch CHR ''}''")
    case True
    have "filter (\<lambda>t. kind t = CHR ''m'') (tags (enumBody (setEnabled en) s)) =
        filter (\<lambda>t. kind t = CHR ''m'') (tags s)"
      by (simp add: enumBody_tags setEnabled_def)
    then show ?thesis
      using "1.hyps" [OF True] enumLoop_step [OF True, of "setEnabled en"] by simp
  next
    case False
    then show ?thesis
      using enumLoop_stop [OF False, of "setEnabled en"] by simp
  qed
qed

lemma parseStatement_other_tags:
  assumes "k \<noteq> PK_MESSAGE"
  shows "filter (\<lambda>t. kind t = CHR ''m'') (tags (parseStatement (setEnabled en) k s)) =
         filter (\<lambda>t. kind t = CHR ''m'') (tags s)"
proof -
  obtain ok s1 where a: "(if k = PK_FIELD then skipFieldType (nextToken s) else (True, nextToken s)) = (ok, s1)"
    by (cases "if k = PK_FIELD then skipFieldType (nextToken s) else (True, nextToken s)")
  have s1: "tags s1 = tags s"
  proof (cases "k = PK_FIELD")
    case True
    then have "s1 = snd (skipFieldType (nextToken s))"
      using a by simp
    then show ?thesis
      by simp
  next
    case False
    then show ?thesis
      using a by auto
  qed
  define s2 where "s2 = nextToken (createProtobufTag (setEnabled en) (token_value s1) k s1)"
  have "letter (setEnabled en k) \<noteq> CHR ''m''"
    using assms by (cases k) (simp_all add: setEnabled_def)
  then have s2: "filter (\<lambda>t. kind t = CHR ''m'') (tags s2) = filter (\<lambda>t. kind t = CHR ''m'') (tags s)"
    by (simp add: s2_def createProtobufTag_tags s1)
  have e: "filter (\<lambda>t. kind t = CHR ''m'') (tags (parseEnumConstants (setEnabled en) s2)) =
      filter (\<lambda>t. kind t = CHR ''m'') (tags s)"
    using enumLoop_message_tags [of en "nextToken s2"] s2 by (simp add: parseEnumConstants_def)
  have "parseStatement (setEnabled en) k s =
      (if \<not> ok then s1 else if token_type s1 \<noteq> TOKEN_ID then s1
       else if k = PK_ENUM then parseEnumConstants (setEnabled en) s2 else s2)"
    by (simp add: parseStatement_def a s2_def Let_def)
  then show ?thesis
    using s1 s2 e by auto
qed

lemma dispatch_other_tags:
  assumes "\<not> tokenIsKeyword ''message'' s"
  shows "filter (\<lambda>t. kind t = CHR ''m'') (tags (dispatch (setEnabled en) s)) =
         filter (\<lambda>t. kind t = CHR ''m'') (tags s)"
  using assms by (simp add: dispatch_def parseStatement_other_tags)

text \<open>Claim C3, as amended. The tag is made once per statement, not once per input. A
  pass of the top-level loop that starts at the keyword \<open>message\<close> with an identifier (Foo)
  as the next token makes, when the message kind is enabled, exactly one tag, the
  message tag named by that identifier, whatever follows: the braced body is left to
  the following passes, which scan it as top-level input. A pass that starts at the
  keyword with no identifier after it makes no tag, and under the source's table a pass
  that does not start at the keyword makes no message tag at all. A run is a sequence
  of such passes. So \<^verbatim>\<open>package p; message Foo { }\<close>, \<^verbatim>\<open> message Foo { }\<close> and
  \<^verbatim>\<open>message Foo{ }\<close> each make the tag once, and for every input that begins with
  \<^verbatim>\<open>message Foo {\<close> the run makes that tag first and then exactly the tags of a run on
  the rest of the input.\<close>

theorem message_statement_tag:
  "(tokenIsKeyword ''message'' s \<and> token_type (nextToken s) = TOKEN_ID \<and>
    enabled (kinds PK_MESSAGE) \<longrightarrow>
      tags (mainBody kinds s) =
        tags s @ [\<lparr>tagName = token_value (nextToken s), kindName = name (kinds PK_MESSAGE),
                   kind = letter (kinds PK_MESSAGE)\<rparr>]) \<and>
   (tokenIsKeyword ''message'' s \<and> token_type (nextToken s) \<noteq> TOKEN_ID \<longrightarrow>
      tags (mainBody kinds s) = tags s) \<and>
   (\<not> tokenIsKeyword ''message'' s \<longrightarrow>
      filter (\<lambda>t. kind t = CHR ''m'') (tags (mainBody (setEnabled en) s)) =
        filter (\<lambda>t. kind t = CHR ''m'') (tags s)) \<and>
   (\<exists>n\<le>length file. findProtobufTags kinds file s0 =
      (mainBody kinds ^^ n) (nextToken ((cppInit file s0)\<lparr>token_value := []\<rparr>))) \<and>
   (identChar c \<and> list_all identChar run \<and> enabled (kinds PK_MESSAGE) \<longrightarrow>
     tags (findProtobufTags kinds (''message '' @ c # run @ '' {'' @ rest) s0) =
       tags s0 @
       \<lparr>tagName = c # run, kindName = name (kinds PK_MESSAGE), kind = letter (kinds PK_MESSAGE)\<rparr> #
       tags (findProtobufTags kinds rest initial) \<and>
     count_list (tags (findProtobufTags kinds (''message '' @ c # run @ '' {'' @ rest) initial))
         \<lparr>tagName = c # run, kindName = name (kinds PK_MESSAGE), kind = letter (kinds PK_MESSAGE)\<rparr> =
       Suc (count_list (tags (findProtobufTags kinds rest initial))
         \<lparr>tagName = c # run, kindName = name (kinds PK_MESSAGE), kind = letter (kinds PK_MESSAGE)\<rparr>)) \<and>
   tags (findProtobufTags ProtobufKinds ''package p; message Foo { }'' initial) =
     [\<lparr>tagName = ''p'', kindName = ''package'', kind = CHR ''p''\<rparr>,
      \<lparr>tagName = ''Foo'', kindName = ''message'', kind = CHR ''m''\<rparr>] \<and>
   tags (findProtobufTags ProtobufKinds '' message Foo { }'' initial) =
     [\<lparr>tagName = ''Foo'', kindName = ''message'', kind = CHR ''m''\<rparr>] \<and>
   tags (findProtobufTags ProtobufKinds ''message Foo{ }'' initial) =
     [\<lparr>tagName = ''Foo'', kindName = ''message'', kind = CHR ''m''\<rparr>]"
proof (intro conjI impI)
  assume "tokenIsKeyword ''message'' s \<and> token_type (nextToken s) = TOKEN_ID \<and>
    enabled (kinds PK_MESSAGE)"
  then show "tags (mainBody kinds s) =
        tags s @ [\<lparr>tagName = token_value (nextToken s), kindName = name (kinds PK_MESSAGE),
                   kind = letter (kinds PK_MESSAGE)\<rparr>]"
    by (simp add: mainBody_tags dispatch_message parseStatement_message_tags)
next
  assume "tokenIsKeyword ''message'' s \<and> token_type (nextToken s) \<noteq> TOKEN_ID"
  then show "tags (mainBody kinds s) = tags s"
    by (simp add: mainBody_tags dispatch_message parseStatement_message_tags)
next
  assume "\<not> tokenIsKeyword ''message'' s"
  then show "filter (\<lambda>t. kind t = CHR ''m'') (tags (mainBody (setEnabled en) s)) =
        filter (\<lambda>t. kind t = CHR ''m'') (tags s)"
    by (simp add: mainBody_tags dispatch_other_tags)
next
  let ?s1 = "nextToken ((cppInit file s0)\<lparr>token_value := []\<rparr>)"
  obtain n where n: "n \<le> tokens_left ?s1" and m: "mainLoop kinds ?s1 = (mainBody kinds ^^ n) ?s1"
    using mainLoop_iterations [of ?s1 kinds] by blast
  have "tokens_left ?s1 \<le> chars_left ((cppInit file s0)\<lparr>token_value := []\<rparr>)"
    by (rule nextToken_tokens_left)
  also have "\<dots> = length file"
    by (simp add: chars_left_def cppInit_def)
  finally have "n \<le> length file"
    using n by simp
  then show "\<exists>n\<le>length file. findProtobufTags kinds file s0 = (mainBody kinds ^^ n) ?s1"
    using m unfolding findProtobufTags_def by blast
next
  assume "identChar c \<and> list_all identChar run \<and> enabled (kinds PK_MESSAGE)"
  then show "tags (findProtobufTags kinds (''message '' @ c # run @ '' {'' @ rest) s0) =
       tags s0 @
       \<lparr>tagName = c # run, kindName = name (kinds PK_MESSAGE), kind = letter (kinds PK_MESSAGE)\<rparr> #
       tags (findProtobufTags kinds rest initial)"
    using message_statement_run [of c run kinds rest s0] by blast
next
  assume "identChar c \<and> list_all identChar run \<and> enabled (kinds PK_MESSAGE)"
  then have "tags (findProtobufTags kinds (''message '' @ c # run @ '' {'' @ rest) initial) =
       tags initial @
       \<lparr>tagName = c # run, kindName = name (kinds PK_MESSAGE), kind = letter (kinds PK_MESSAGE)\<rparr> #
       tags (findProtobufTags kinds rest initial)"
    using message_statement_run [of c run kinds rest initial] by blast
  then show "count_list (tags (findProtobufTags kinds (''message '' @ c # run @ '' {'' @ rest) initial))
         \<lparr>tagName = c # run, kindName = name (kinds PK_MESSAGE), kind = letter (kinds PK_MESSAGE)\<rparr> =
       Suc (count_list (tags (findProtobufTags kinds rest initial))
         \<lparr>tagName = c # run, kindName = name (kinds PK_MESSAGE), kind = letter (kinds PK_MESSAGE)\<rparr>)"
    by (simp add: initial_def)
qed (simp_all only: message_examples)

theorem message_statement_tag_witness:
  "tags (mainBody ProtobufKinds (nextToken (cppInit ''message Foo { message Foo { } }'' initial))) =
     [\<lparr>tagName = ''Foo'', kindName = ''message'', kind = CHR ''m''\<rparr>] \<and>
   tags (mainBody ProtobufKinds (nextToken (cppInit ''message { }'' initial))) = [] \<and>
   filter (\<lambda>t. kind t = CHR ''m'')
     (tags (mainBody (setEnabled (\<lambda>k. True)) (nextToken (cppInit ''x message Foo { }'' initial)))) = [] \<and>
   tags (findProtobufTags ProtobufKinds (''message Foo {'' @ '' optional int32 x = 1; }'') initial) =
     \<lparr>tagName = ''Foo'', kindName = ''message'', kind = CHR ''m''\<rparr> #
     tags (findProtobufTags ProtobufKinds '' optional int32 x = 1; }'' initial) \<and>
   count_list (tags (findProtobufTags ProtobufKinds (''message Foo {'' @ '' optional int32 x = 1; }'') initial))
     \<lparr>tagName = ''Foo'', kindName = ''message'', kind = CHR ''m''\<rparr> = 1"
proof -
  let ?a = "nextToken (cppInit ''message Foo { message Foo { } }'' initial)"
  let ?b = "nextToken (cppInit ''message { }'' initial)"
  let ?c = "nextToken (cppInit ''x message Foo { }'' initial)"
  have a: "tokenIsKeyword ''message'' ?a" "token_type (nextToken ?a) = TOKEN_ID"
    "token_value (nextToken ?a) = ''Foo''" "tags ?a = []"
    by code_simp+
  have b: "tokenIsKeyword ''message'' ?b" "token_type (nextToken ?b) = ch CHR ''{''" "tags ?b = []"
    by code_simp+
  have c: "\<not> tokenIsKeyword ''message'' ?c" "tags ?c = []"
    by code_simp+
  have en: "enabled (ProtobufKinds PK_MESSAGE)"
    by simp
  have i: "identChar CHR ''F''" "list_all identChar ''oo''"
    by (simp_all add: identChar_def isalnum_def)
  have r: "tags (findProtobufTags ProtobufKinds '' optional int32 x = 1; }'' initial) =
      [\<lparr>tagName = ''x'', kindName = ''field'', kind = CHR ''f''\<rparr>]"
    by code_simp
  have t1: "tags (mainBody ProtobufKinds ?a) =
      tags ?a @ [\<lparr>tagName = token_value (nextToken ?a), kindName = name (ProtobufKinds PK_MESSAGE),
                   kind = letter (ProtobufKinds PK_MESSAGE)\<rparr>]"
    using message_statement_tag [where s = ?a and kinds = ProtobufKinds] a(1,2) en by blast
  have b2: "token_type (nextToken ?b) \<noteq> TOKEN_ID"
    using b(2) by (simp add: TOKEN_ID_def)
  have t2: "tags (mainBody ProtobufKinds ?b) = tags ?b"
    using message_statement_tag [where s = ?b and kinds = ProtobufKinds] b(1) b2 by blast
  have t3: "filter (\<lambda>t. kind t = CHR ''m'') (tags (mainBody (setEnabled (\<lambda>k. True)) ?c)) =
      filter (\<lambda>t. kind t = CHR ''m'') (tags ?c)"
    using message_statement_tag [where s = ?c and en = "\<lambda>k. True"] c(1) by blast
  have t4: "tags (findProtobufTags ProtobufKinds (''message '' @ CHR ''F'' # ''oo'' @ '' {'' @ '' optional int32 x = 1; }'') initial) =
       tags initial @
       \<lparr>tagName = CHR ''F'' # ''oo'', kindName = name (ProtobufKinds PK_MESSAGE),
          kind = letter (ProtobufKinds PK_MESSAGE)\<rparr> #
       tags (findProtobufTags ProtobufKinds '' optional int32 x = 1; }'' initial)"
    using message_statement_tag [where c = "CHR ''F''" and run = "''oo''" and kinds = ProtobufKinds
        and rest = "'' optional int32 x = 1; }''" and ?s0.0 = initial] i en
    by blast
  show ?thesis
    using t1 t2 t3 t4 a(3,4) b(3) c(2) r by (simp add: initial_def)
qed

end
